theory Spec2Isabelle
  imports Complex_Main
begin

section \<open>The DQN agent of src/dqn/agent.py\<close>

text \<open>
  The class \<open>Agent\<close> is embedded as a record of its fields and one HOL function per method.
  Numbers: Python floats and the entries of torch tensors are modelled as \<open>real\<close> (rounding,
  infinities and NaN are outside the model); Python ints are \<open>int\<close>, lengths are \<open>nat\<close>.
  A tensor is the list of its entries; a network keeps the shape of each of its parameters
  beside them, and a checkpoint stores it with each tensor. Arithmetic on two parameters asks
  for the same number of entries (the two value functions are built by the same constructor
  call, so their parameters agree in every dimension as soon as they agree in size). An
  exception is a value \<open>Inl e\<close>; it ends the computation, as no method of the class catches
  anything.
\<close>

datatype error =
    ValueError          \<comment> \<open>argmax or max of an empty tensor, sample larger than the population\<close>
  | IndexError          \<comment> \<open>\<open>random.choice\<close> of an empty sequence\<close>
  | ZeroDivisionError   \<comment> \<open>\<open>% 0\<close>\<close>
  | ShapeError          \<comment> \<open>torch's RuntimeError on tensors whose sizes differ\<close>
  | FileNotFoundError
  | KeyError            \<comment> \<open>\<open>load_state_dict\<close>: missing or unexpected parameter names\<close>
  | TorchError          \<comment> \<open>any failure inside the differentiation and optimizer step\<close>

type_synonym tensor = "real list"

type_synonym state_dict = "(string \<times> tensor) list"

text \<open>
  Modelled from the spec: \<open>QNetwork\<close> (module \<open>dqn\<close>, not in the sources) is an opaque
  parameterized function approximator. The model keeps what the agent touches: the named
  parameter tensors in their order (\<open>parameters()\<close>), the shape of the parameter of each
  name, and the mode flag that \<open>eval()\<close> and \<open>train()\<close> set.
\<close>

record qnetwork =
  params :: state_dict
  shapes :: "string \<Rightarrow> nat list"
  training :: bool

definition parameters :: "qnetwork \<Rightarrow> tensor list" where
  "parameters net = map snd (params net)"

text \<open>
  \<open>Module.state_dict()\<close>, the content of a checkpoint: every parameter in order, as its
  name, its shape and its entries.
\<close>

type_synonym checkpoint = "(string \<times> nat list \<times> tensor) list"

definition state_dict_of :: "qnetwork \<Rightarrow> checkpoint" where
  "state_dict_of net = map (\<lambda>(name, t). (name, shapes net name, t)) (params net)"

text \<open>
  Modelled from the spec: a transition stored by \<open>ReplayBuffer\<close> (module \<open>dqn\<close>, not in the
  sources) is the tuple (state, action, reward, next_state, done).
\<close>

record experience =
  exp_state :: "real list"
  exp_action :: int
  exp_reward :: real
  exp_next_state :: "real list"
  exp_done :: bool

text \<open>
  The batch handed to \<open>learn\<close>: five aligned columns
  \<open>(states, actions, rewards, next_states, dones)\<close>, one row per transition; \<open>dones\<close> holds
  1 for a terminal transition and 0 otherwise.
\<close>

type_synonym experiences =
  "real list list \<times> int list \<times> real list \<times> real list list \<times> real list"

text \<open>
  The collaborators of the agent are parameters of the model, collected in one record:
  \<^item> \<open>forward net s\<close>: the action values of network \<open>net\<close> on one state (\<open>QNetwork.__call__\<close>);
  \<^item> \<open>gradient_step opt net states actions targets\<close>: lines 103 to 110 of \<open>learn\<close> (expected
    values of the actions taken, mean squared error against the constant targets,
    \<open>zero_grad\<close>, \<open>backward\<close>, \<open>optimizer.step\<close>), giving the new optimizer state and the new
    parameters of the local network, or raising;
  \<^item> \<open>rand_random\<close>, \<open>rand_choice n\<close>, \<open>rand_sample pop k\<close>: Python's global generator
    (\<open>random.random()\<close> in [0, 1), \<open>random.choice\<close> of \<open>n\<close> items as an index,
    \<open>random.sample\<close>), each returning the generator's next state;
  \<^item> \<open>env_reset train_mode\<close>, \<open>env_step action\<close>: the simulator, each returning
    (observation, reward, done) of the first agent and the simulator's next state.
\<close>

type_synonym env_info = "real list \<times> real \<times> bool"

record ('o, 'g, 'e) world =
  forward :: "qnetwork \<Rightarrow> real list \<Rightarrow> real list"
  gradient_step ::
    "'o \<Rightarrow> qnetwork \<Rightarrow> real list list \<Rightarrow> int list \<Rightarrow> real list \<Rightarrow> error + ('o \<times> state_dict)"
  rand_random :: "'g \<Rightarrow> real \<times> 'g"
  rand_choice :: "nat \<Rightarrow> 'g \<Rightarrow> nat \<times> 'g"
  rand_sample :: "experience list \<Rightarrow> nat \<Rightarrow> 'g \<Rightarrow> experience list \<times> 'g"
  env_reset :: "bool \<Rightarrow> 'e \<Rightarrow> env_info \<times> 'e"
  env_step :: "int \<Rightarrow> 'e \<Rightarrow> env_info \<times> 'e"

subsection \<open>The temporal-difference target of \<open>learn\<close>\<close>

text \<open>
  \<open>.max(1)[0]\<close> on one row of action values. Torch raises on a row without entries:
  \<open>Q_targets\<close> below tests for such a row before it calls \<open>row_max\<close>.
\<close>

fun row_max :: "real list \<Rightarrow> real" where
  "row_max [] = 0"
| "row_max (x # xs) = fold max xs x"

text \<open>
  Lines 98 and 100:
  \<^verbatim>\<open>Q_targets_next = self.qnetwork_target(next_states).detach().max(1)[0].unsqueeze(1)\<close>
  \<^verbatim>\<open>Q_targets = rewards + (gamma * Q_targets_next * (1 - dones))\<close>
  Columns of different sizes are a shape error (torch's broadcasting of a one-row column
  against a longer one is not modelled; \<open>ReplayBuffer.sample\<close> returns aligned columns).
\<close>

definition Q_targets ::
  "('o, 'g, 'e) world \<Rightarrow> qnetwork \<Rightarrow> real \<Rightarrow> real list \<Rightarrow> real list list \<Rightarrow> real list
     \<Rightarrow> error + real list" where
  "Q_targets w qnetwork_target gamma rewards next_states dones =
     (let rows = map (forward w qnetwork_target) next_states in
      if [] \<in> set rows then Inl ValueError
      else
        let Q_targets_next = map row_max rows in
        if length rewards = length Q_targets_next \<and> length dones = length Q_targets_next
        then Inr (map2 (\<lambda>r (q, d). r + (gamma * q * (1 - d))) rewards (zip Q_targets_next dones))
        else Inl ShapeError)"

subsection \<open>\<open>soft_update\<close>\<close>

text \<open>
  \<^verbatim>\<open>for target_param, local_param in zip(target_model.parameters(), local_model.parameters()):\<close>
  \<^verbatim>\<open>    target_param.data.copy_(tau*local_param.data + (1.0-tau)*target_param.data)\<close>
  \<open>zip\<close> stops at the shorter sequence, so target parameters beyond the last local one are
  left as they are. The names of the target's parameters do not change.
\<close>

definition blend :: "real \<Rightarrow> tensor \<Rightarrow> tensor \<Rightarrow> error + tensor" where
  "blend tau local_param target_param =
     (if length local_param = length target_param
      then Inr (map2 (\<lambda>l t. tau * l + (1.0 - tau) * t) local_param target_param)
      else Inl ShapeError)"

fun soft_update_params :: "tensor list \<Rightarrow> state_dict \<Rightarrow> real \<Rightarrow> error + state_dict" where
  "soft_update_params (l # ls) ((name, t) # ts) tau =
     (case blend tau l t of
        Inl e \<Rightarrow> Inl e
      | Inr t' \<Rightarrow>
          (case soft_update_params ls ts tau of
             Inl e \<Rightarrow> Inl e
           | Inr ts' \<Rightarrow> Inr ((name, t') # ts')))"
| "soft_update_params [] ts tau = Inr ts"
| "soft_update_params ls [] tau = Inr []"

definition soft_update :: "qnetwork \<Rightarrow> qnetwork \<Rightarrow> real \<Rightarrow> error + qnetwork" where
  "soft_update local_model target_model tau =
     (case soft_update_params (parameters local_model) (params target_model) tau of
        Inl e \<Rightarrow> Inl e
      | Inr ps \<Rightarrow> Inr (target_model\<lparr>params := ps\<rparr>))"


subsection \<open>The agent\<close>

text \<open>
  What \<open>print\<close> writes, one value per call: the format strings and the rendering of
  floats are not modelled. \<open>Progress i avg\<close> is line 164 (no line end), \<open>ProgressLine\<close>
  line 166, \<open>Solved n avg\<close> line 168, \<open>TestLine\<close> line 195.
\<close>

datatype printed =
    Progress int real
  | ProgressLine int real
  | Solved int real
  | TestLine int real

text \<open>
  The fields of \<open>Agent\<close> (\<open>seed\<close> is always \<open>None\<close> and \<open>device\<close> does not matter here),
  followed by the state of the process that its methods read and write: the global random
  generator, the files by path, and the console. \<open>learn_calls\<close> is instrumentation: it counts
  the calls of \<open>learn\<close>, and no modelled code reads it.
\<close>

record ('o, 'g) agent =
  state_size :: int
  action_size :: int
  buffer_size :: nat
  batch_size :: int
  gamma :: real
  tau :: real
  lr :: real
  update_every :: int
  checkpoint_file :: string
  qnetwork_local :: qnetwork
  qnetwork_target :: qnetwork
  optimizer :: 'o
  memory :: "experience list"
  t_step :: int
  rng :: 'g
  files :: "string \<rightharpoonup> checkpoint"
  console :: "printed list"
  learn_calls :: nat

text \<open>
  \<open>__init__\<close>. The two networks \<open>QNetwork(state_size, action_size, seed)\<close>, the state of
  \<open>optim.Adam\<close>, and the generator after \<open>random.seed(seed)\<close> are given; the replay memory
  starts empty and the step counter at 0.
\<close>

definition init ::
  "int \<Rightarrow> int \<Rightarrow> nat \<Rightarrow> int \<Rightarrow> real \<Rightarrow> real \<Rightarrow> real \<Rightarrow> int \<Rightarrow> string
     \<Rightarrow> qnetwork \<Rightarrow> qnetwork \<Rightarrow> 'o \<Rightarrow> 'g \<Rightarrow> (string \<rightharpoonup> checkpoint) \<Rightarrow> ('o, 'g) agent" where
  "init state_size' action_size' buffer_size' batch_size' gamma' tau' lr' update_every'
        checkpoint_file' local0 target0 opt0 g0 files0 =
     \<lparr> state_size = state_size', action_size = action_size', buffer_size = buffer_size',
       batch_size = batch_size', gamma = gamma', tau = tau', lr = lr',
       update_every = update_every', checkpoint_file = checkpoint_file',
       qnetwork_local = local0, qnetwork_target = target0, optimizer = opt0,
       memory = [], t_step = 0, rng = g0, files = files0, console = [], learn_calls = 0 \<rparr>"

subsection \<open>The replay memory\<close>

text \<open>
  \<open>collections.deque(maxlen=cap).append\<close>: a full deque drops its oldest entry.
\<close>

definition deque_append :: "nat \<Rightarrow> 'a list \<Rightarrow> 'a \<Rightarrow> 'a list" where
  "deque_append cap xs x = (let ys = xs @ [x] in drop (length ys - cap) ys)"

text \<open>
  Modelled from the spec: \<open>ReplayBuffer.add\<close> (not in the sources) appends to a bounded
  sequence of at most \<open>buffer_size\<close> transitions; at capacity the oldest entry goes.
\<close>

definition memory_add :: "nat \<Rightarrow> experience list \<Rightarrow> experience \<Rightarrow> experience list" where
  "memory_add cap mem e = deque_append cap mem e"

text \<open>
  Modelled from the spec: \<open>ReplayBuffer.sample\<close> (not in the sources) draws \<open>batch_size\<close>
  transitions from the current contents with the global generator, fails when the memory
  holds fewer, and returns them as five aligned columns.
\<close>

definition columns :: "experience list \<Rightarrow> experiences" where
  "columns batch =
     (map exp_state batch, map exp_action batch, map exp_reward batch,
      map exp_next_state batch, map (\<lambda>e. if exp_done e then 1 else 0) batch)"

definition memory_sample ::
  "('o, 'g, 'e) world \<Rightarrow> experience list \<Rightarrow> int \<Rightarrow> 'g \<Rightarrow> error + (experiences \<times> 'g)" where
  "memory_sample w mem k g =
     (if k < 0 \<or> int (length mem) < k then Inl ValueError
      else case rand_sample w mem (nat k) g of (batch, g') \<Rightarrow> Inr (columns batch, g'))"

subsection \<open>\<open>learn\<close> and \<open>step\<close>\<close>

text \<open>
  \<open>learn(experiences, gamma)\<close>: the targets of lines 98 to 100, the gradient step on the
  local network (lines 103 to 110), then \<open>soft_update(local, target, tau)\<close> with the local
  network as it is after that step.
\<close>

definition learn ::
  "('o, 'g, 'e) world \<Rightarrow> ('o, 'g) agent \<Rightarrow> experiences \<Rightarrow> real \<Rightarrow> error + ('o, 'g) agent" where
  "learn w ag experiences gamma' =
     (case experiences of (states, actions, rewards, next_states, dones) \<Rightarrow>
        (case Q_targets w (qnetwork_target ag) gamma' rewards next_states dones of
           Inl e \<Rightarrow> Inl e
         | Inr targets \<Rightarrow>
             (case gradient_step w (optimizer ag) (qnetwork_local ag) states actions targets of
                Inl e \<Rightarrow> Inl e
              | Inr (opt', ps') \<Rightarrow>
                  let local' = (qnetwork_local ag)\<lparr>params := ps'\<rparr> in
                  (case soft_update local' (qnetwork_target ag) (tau ag) of
                     Inl e \<Rightarrow> Inl e
                   | Inr target' \<Rightarrow>
                       Inr (ag\<lparr>optimizer := opt', qnetwork_local := local',
                               qnetwork_target := target',
                               learn_calls := Suc (learn_calls ag)\<rparr>)))))"

text \<open>
  \<^verbatim>\<open>self.memory.add(state, action, reward, next_state, done)\<close>
  \<^verbatim>\<open>self.t_step = (self.t_step + 1) % self.update_every\<close>
  \<^verbatim>\<open>if self.t_step == 0:\<close>
  \<^verbatim>\<open>    if len(self.memory) > self.batch_size:\<close>
  \<^verbatim>\<open>        experiences = self.memory.sample()\<close>
  \<^verbatim>\<open>        self.learn(experiences, self.gamma)\<close>
  Python's \<open>%\<close> on ints takes the sign of the divisor, as \<open>mod\<close> on \<open>int\<close> does, and raises
  on a zero divisor.
\<close>

definition step ::
  "('o, 'g, 'e) world \<Rightarrow> ('o, 'g) agent \<Rightarrow> real list \<Rightarrow> int \<Rightarrow> real \<Rightarrow> real list \<Rightarrow> bool
     \<Rightarrow> error + ('o, 'g) agent" where
  "step w ag s a r s' d =
     (let ag1 = ag\<lparr>memory := memory_add (buffer_size ag) (memory ag)
                  \<lparr>exp_state = s, exp_action = a, exp_reward = r,
                   exp_next_state = s', exp_done = d\<rparr>\<rparr>
      in if update_every ag1 = 0 then Inl ZeroDivisionError
         else
           let ag2 = ag1\<lparr>t_step := (t_step ag1 + 1) mod update_every ag1\<rparr> in
           if t_step ag2 = 0 then
             if int (length (memory ag2)) > batch_size ag2 then
               (case memory_sample w (memory ag2) (batch_size ag2) (rng ag2) of
                  Inl e \<Rightarrow> Inl e
                | Inr (experiences, g') \<Rightarrow> learn w (ag2\<lparr>rng := g'\<rparr>) experiences (gamma ag2))
             else Inr ag2
           else Inr ag2)"

subsection \<open>\<open>act\<close>\<close>

text \<open>
  \<open>np.argmax\<close> of the action values: the index of the first occurrence of the maximum,
  found by one scan that replaces the best index only on a strictly larger entry; it
  raises on an empty array.
\<close>

fun argmax_from :: "nat \<Rightarrow> real \<Rightarrow> nat \<Rightarrow> real list \<Rightarrow> nat" where
  "argmax_from best v i [] = best"
| "argmax_from best v i (x # xs) =
     (if x > v then argmax_from i x (Suc i) xs else argmax_from best v (Suc i) xs)"

definition argmax :: "real list \<Rightarrow> error + nat" where
  "argmax xs = (case xs of [] \<Rightarrow> Inl ValueError | x # xs' \<Rightarrow> Inr (argmax_from 0 x 1 xs'))"

text \<open>
  \<^verbatim>\<open>self.qnetwork_local.eval()\<close>
  \<^verbatim>\<open>with torch.no_grad(): action_values = self.qnetwork_local(state)\<close>
  \<^verbatim>\<open>self.qnetwork_local.train()\<close>
  \<^verbatim>\<open>if random.random() > eps: return np.argmax(action_values.cpu().data.numpy())\<close>
  \<^verbatim>\<open>else: return random.choice(np.arange(self.action_size))\<close>
  The result is the action together with the agent after the call (the mode flag of the
  local network and the generator have changed).
\<close>

definition act ::
  "('o, 'g, 'e) world \<Rightarrow> ('o, 'g) agent \<Rightarrow> real list \<Rightarrow> real \<Rightarrow> error + (int \<times> ('o, 'g) agent)" where
  "act w ag s eps =
     (let ag1 = ag\<lparr>qnetwork_local := (qnetwork_local ag)\<lparr>training := False\<rparr>\<rparr>;
          action_values = forward w (qnetwork_local ag1) s;
          ag2 = ag1\<lparr>qnetwork_local := (qnetwork_local ag1)\<lparr>training := True\<rparr>\<rparr>
      in case rand_random w (rng ag2) of (u, g1) \<Rightarrow>
           if u > eps then
             (case argmax action_values of
                Inl e \<Rightarrow> Inl e
              | Inr i \<Rightarrow> Inr (int i, ag2\<lparr>rng := g1\<rparr>))
           else if action_size ag2 \<le> 0 then Inl IndexError
           else case rand_choice w (nat (action_size ag2)) g1 of
                  (c, g2) \<Rightarrow> Inr (int c, ag2\<lparr>rng := g2\<rparr>))"

subsection \<open>\<open>save\<close> and \<open>load\<close>\<close>

text \<open>
  \<^verbatim>\<open>torch.save(self.qnetwork_local.state_dict(), self.checkpoint_file)\<close>
  The file system is a map from paths to stored checkpoints; a failing write (no such
  directory, no permission) is not modelled.
\<close>

definition save :: "('o, 'g) agent \<Rightarrow> ('o, 'g) agent" where
  "save ag = ag\<lparr>files := (files ag)(checkpoint_file ag \<mapsto> state_dict_of (qnetwork_local ag))\<rparr>"

text \<open>
  \<open>Module.load_state_dict\<close> in its default strict mode: the stored names must be the
  names of the network's parameters, each stored tensor must have the shape (and with it the
  number of entries) of the parameter it goes to, and then every parameter is overwritten in
  place with the stored entries.
\<close>

definition load_state_dict :: "qnetwork \<Rightarrow> checkpoint \<Rightarrow> error + qnetwork" where
  "load_state_dict net sd =
     (if set (map fst sd) \<noteq> set (map fst (params net)) then Inl KeyError
      else if \<exists>(name, t) \<in> set (params net).
                 \<exists>sh t'. map_of sd name = Some (sh, t') \<and>
                         (sh \<noteq> shapes net name \<or> length t' \<noteq> length t)
           then Inl ShapeError
           else Inr (net\<lparr>params :=
                       map (\<lambda>(name, t).
                              (name, case map_of sd name of None \<Rightarrow> t | Some (sh, t') \<Rightarrow> t'))
                         (params net)\<rparr>))"

text \<open>\<^verbatim>\<open>self.qnetwork_local.load_state_dict(torch.load(self.checkpoint_file))\<close>\<close>

definition load :: "('o, 'g) agent \<Rightarrow> error + ('o, 'g) agent" where
  "load ag =
     (case files ag (checkpoint_file ag) of
        None \<Rightarrow> Inl FileNotFoundError
      | Some sd \<Rightarrow>
          (case load_state_dict (qnetwork_local ag) sd of
             Inl e \<Rightarrow> Inl e
           | Inr net \<Rightarrow> Inr (ag\<lparr>qnetwork_local := net\<rparr>)))"

subsection \<open>\<open>train\<close>\<close>

text \<open>\<open>np.mean\<close> of a sequence of scores; the callers apply it to non-empty sequences only.\<close>

definition mean :: "real list \<Rightarrow> real" where
  "mean xs = sum_list xs / real (length xs)"

text \<open>The local variables of \<open>train\<close> that live across episodes.\<close>

record train_vars =
  scores :: "real list"
  moving_avgs :: "real list"
  scores_window :: "real list"
  eps :: real

text \<open>
  The inner loop \<open>for t in range(max_t)\<close> (lines 148 to 158), by recursion on the number of
  iterations left; it returns the agent, the simulator and the episode's score.
\<close>

fun train_steps ::
  "('o, 'g, 'e) world \<Rightarrow> nat \<Rightarrow> ('o, 'g) agent \<Rightarrow> 'e \<Rightarrow> real list \<Rightarrow> real \<Rightarrow> real
     \<Rightarrow> error + (('o, 'g) agent \<times> 'e \<times> real)" where
  "train_steps w 0 ag env s score epsilon = Inr (ag, env, score)"
| "train_steps w (Suc n) ag env s score epsilon =
     (case act w ag s epsilon of
        Inl e \<Rightarrow> Inl e
      | Inr (action, ag1) \<Rightarrow>
          (case env_step w action env of
             ((next_state, reward, d), env1) \<Rightarrow>
               (case step w ag1 s action reward next_state d of
                  Inl e \<Rightarrow> Inl e
                | Inr ag2 \<Rightarrow>
                    if d then Inr (ag2, env1, score + reward)
                    else train_steps w n ag2 env1 next_state (score + reward) epsilon)))"

text \<open>
  The loop \<open>for i_episode in range(1, n_episodes+1)\<close> (lines 144 to 170), by recursion on
  the number of episodes left, with \<open>i_episode\<close> as \<open>i\<close>.
\<close>

fun train_episodes ::
  "('o, 'g, 'e) world \<Rightarrow> nat \<Rightarrow> int \<Rightarrow> nat \<Rightarrow> real \<Rightarrow> real \<Rightarrow> ('o, 'g) agent \<Rightarrow> 'e \<Rightarrow> train_vars
     \<Rightarrow> error + (('o, 'g) agent \<times> 'e \<times> train_vars)" where
  "train_episodes w 0 i max_t eps_end eps_decay ag env vars = Inr (ag, env, vars)"
| "train_episodes w (Suc n) i max_t eps_end eps_decay ag env vars =
     (case env_reset w True env of
        ((s, r0, d0), env1) \<Rightarrow>
          (case train_steps w max_t ag env1 s 0 (eps vars) of
             Inl e \<Rightarrow> Inl e
           | Inr (ag1, env2, score) \<Rightarrow>
               let window = deque_append 100 (scores_window vars) score;
                   moving_avg = mean window;
                   vars' = \<lparr> scores = scores vars @ [score],
                             moving_avgs = moving_avgs vars @ [moving_avg],
                             scores_window = window,
                             eps = max eps_end (eps_decay * eps vars) \<rparr>;
                   ag2 = ag1\<lparr>console := console ag1 @ [Progress i (mean window)]\<rparr>;
                   ag3 = (if i mod 100 = 0
                          then ag2\<lparr>console := console ag2 @ [ProgressLine i moving_avg]\<rparr>
                          else ag2)
               in if moving_avg \<ge> 13.0
                  then Inr (save (ag3\<lparr>console := console ag3 @ [Solved (i - 100) moving_avg]\<rparr>),
                            env2, vars')
                  else train_episodes w n (i + 1) max_t eps_end eps_decay ag3 env2 vars'))"

text \<open>
  \<open>train\<close> up to its \<open>return\<close>: the first reset (line 142), then the loop from episode 1 with
  \<open>eps = eps_start\<close>. \<open>range\<close> of a negative count is empty, as \<open>nat\<close> of a negative int is 0.
\<close>

definition train_loop ::
  "('o, 'g, 'e) world \<Rightarrow> ('o, 'g) agent \<Rightarrow> 'e \<Rightarrow> int \<Rightarrow> int \<Rightarrow> real \<Rightarrow> real \<Rightarrow> real
     \<Rightarrow> error + (('o, 'g) agent \<times> 'e \<times> train_vars)" where
  "train_loop w ag env n_episodes max_t eps_start eps_end eps_decay =
     (case env_reset w False env of
        (info, env0) \<Rightarrow>
          train_episodes w (nat n_episodes) 1 (nat max_t) eps_end eps_decay ag env0
            \<lparr> scores = [], moving_avgs = [], scores_window = [], eps = eps_start \<rparr>)"

definition train ::
  "('o, 'g, 'e) world \<Rightarrow> ('o, 'g) agent \<Rightarrow> 'e \<Rightarrow> int \<Rightarrow> int \<Rightarrow> real \<Rightarrow> real \<Rightarrow> real
     \<Rightarrow> error + ((real list \<times> real list) \<times> ('o, 'g) agent \<times> 'e)" where
  "train w ag env n_episodes max_t eps_start eps_end eps_decay =
     (case train_loop w ag env n_episodes max_t eps_start eps_end eps_decay of
        Inl e \<Rightarrow> Inl e
      | Inr (ag', env', vars) \<Rightarrow> Inr ((scores vars, moving_avgs vars), ag', env'))"

subsection \<open>\<open>test\<close>\<close>

text \<open>
  The loop \<open>while True\<close> of one evaluation episode (lines 182 to 196, without the lines of
  the \<open>if done\<close> block that follow the loop's last iteration). Nothing bounds it, so the
  result is an option: \<open>None\<close> is the loop that never ends. The counter \<open>t\<close> of the source
  is written and never read, and is left out.
\<close>

partial_function (option) test_steps ::
  "('o, 'g, 'e) world \<Rightarrow> ('o, 'g) agent \<Rightarrow> 'e \<Rightarrow> real list \<Rightarrow> real
     \<Rightarrow> (error + (('o, 'g) agent \<times> 'e \<times> real)) option" where
  "test_steps w ag env s score =
     (case act w ag s 0 of
        Inl e \<Rightarrow> Some (Inl e)
      | Inr (action, ag1) \<Rightarrow>
          (case env_step w action env of
             ((next_state, reward, d), env1) \<Rightarrow>
               if d then Some (Inr (ag1, env1, score + reward))
               else test_steps w ag1 env1 next_state (score + reward)))"

text \<open>
  The loop \<open>for i_episode in range(1, num_episodes+1)\<close> of \<open>test\<close>, with the bookkeeping of
  the \<open>if done\<close> block (lines 193 to 195) after each episode.
\<close>

fun test_episodes ::
  "('o, 'g, 'e) world \<Rightarrow> nat \<Rightarrow> int \<Rightarrow> ('o, 'g) agent \<Rightarrow> 'e \<Rightarrow> real list \<Rightarrow> real list
     \<Rightarrow> (error + ((real list \<times> real list) \<times> ('o, 'g) agent \<times> 'e)) option" where
  "test_episodes w 0 i ag env scores' avg_scores = Some (Inr ((scores', avg_scores), ag, env))"
| "test_episodes w (Suc n) i ag env scores' avg_scores =
     (case env_reset w False env of
        ((s, r0, d0), env1) \<Rightarrow>
          (case test_steps w ag env1 s 0 of
             None \<Rightarrow> None
           | Some (Inl e) \<Rightarrow> Some (Inl e)
           | Some (Inr (ag1, env2, score)) \<Rightarrow>
               let scores2 = scores' @ [score];
                   avg_scores2 = avg_scores @ [mean scores2];
                   ag2 = ag1\<lparr>console := console ag1 @ [TestLine i (mean scores2)]\<rparr>
               in test_episodes w n (i + 1) ag2 env2 scores2 avg_scores2))"

definition test ::
  "('o, 'g, 'e) world \<Rightarrow> ('o, 'g) agent \<Rightarrow> 'e \<Rightarrow> int
     \<Rightarrow> (error + ((real list \<times> real list) \<times> ('o, 'g) agent \<times> 'e)) option" where
  "test w ag env num_episodes = test_episodes w (nat num_episodes) 1 ag env [] []"

subsection \<open>The two loops, step by step\<close>

text \<open>
  The value of \<open>eps\<close> after \<open>k\<close> executions of line 163,
  \<^verbatim>\<open>eps = max(eps_end, eps_decay*eps)\<close>, starting from \<open>eps_start\<close>.
\<close>

fun eps_after :: "real \<Rightarrow> real \<Rightarrow> nat \<Rightarrow> real \<Rightarrow> real" where
  "eps_after eps_end eps_decay 0 eps_start = eps_start"
| "eps_after eps_end eps_decay (Suc k) eps_start =
     max eps_end (eps_decay * eps_after eps_end eps_decay k eps_start)"

text \<open>The last \<open>k\<close> entries of a sequence (all of them when it has fewer).\<close>

definition trailing :: "nat \<Rightarrow> 'a list \<Rightarrow> 'a list" where
  "trailing k xs = drop (length xs - k) xs"

text \<open>
  One iteration of the \<open>while True\<close> loop of \<open>test\<close> on the loop's variables (agent,
  simulator, state, score): it raises, or gives the flag \<open>done\<close> of that iteration and the
  variables after it.
\<close>

type_synonym ('o, 'g, 'e) test_vars = "('o, 'g) agent \<times> 'e \<times> real list \<times> real"

definition test_body ::
  "('o, 'g, 'e) world \<Rightarrow> ('o, 'g, 'e) test_vars \<Rightarrow> error + (bool \<times> ('o, 'g, 'e) test_vars)" where
  "test_body w v =
     (case v of (ag, env, s, score) \<Rightarrow>
        (case act w ag s 0 of
           Inl e \<Rightarrow> Inl e
         | Inr (action, ag1) \<Rightarrow>
             (case env_step w action env of
                ((next_state, reward, d), env1) \<Rightarrow>
                  Inr (d, (ag1, env1, next_state, score + reward)))))"

text \<open>
  Where the loop is after at most \<open>n\<close> iterations: still \<open>Running\<close> (no iteration so far
  has seen \<open>done\<close>), \<open>Finished\<close> (an iteration has seen \<open>done\<close> and left the loop), or
  \<open>Raised\<close>.
\<close>

datatype 'a progress = Running 'a | Finished 'a | Raised error

fun test_iter ::
  "('o, 'g, 'e) world \<Rightarrow> nat \<Rightarrow> ('o, 'g, 'e) test_vars \<Rightarrow> ('o, 'g, 'e) test_vars progress" where
  "test_iter w 0 v = Running v"
| "test_iter w (Suc n) v =
     (case test_body w v of
        Inl e \<Rightarrow> Raised e
      | Inr (d, v') \<Rightarrow> if d then Finished v' else test_iter w n v')"

subsection \<open>Feeding transitions\<close>

text \<open>
  The driver of the end-to-end scenario: it calls \<open>step\<close> on one transition after the other,
  and an exception of \<open>step\<close> ends it.
\<close>

fun feed ::
  "('o, 'g, 'e) world \<Rightarrow> ('o, 'g) agent \<Rightarrow> experience list \<Rightarrow> error + ('o, 'g) agent" where
  "feed w ag [] = Inr ag"
| "feed w ag (x # xs) =
     (case step w ag (exp_state x) (exp_action x) (exp_reward x) (exp_next_state x) (exp_done x) of
        Inl e \<Rightarrow> Inl e
      | Inr ag' \<Rightarrow> feed w ag' xs)"

text \<open>
  What the cadence of \<open>step\<close> depends on, and how \<open>n\<close> calls move it: the step counter, the
  length of the memory, and the number of calls of \<open>learn\<close>, for a memory of capacity \<open>cap\<close>, a
  batch size \<open>b\<close> and an update period \<open>u\<close>.
\<close>

definition cadence_of :: "('o, 'g) agent \<Rightarrow> int \<times> nat \<times> nat" where
  "cadence_of ag = (t_step ag, length (memory ag), learn_calls ag)"

fun cadence :: "nat \<Rightarrow> int \<Rightarrow> int \<Rightarrow> nat \<Rightarrow> int \<times> nat \<times> nat \<Rightarrow> int \<times> nat \<times> nat" where
  "cadence cap b u 0 c = c"
| "cadence cap b u (Suc n) (t, len, k) =
     (let len' = min cap (Suc len); t' = (t + 1) mod u
      in cadence cap b u n (t', len', if t' = 0 \<and> int len' > b then Suc k else k))"

section \<open>A concrete world for the examples\<close>

text \<open>
  A small instance of the collaborators, on which the theorems below are instantiated:
  the action values of a network are its first parameter tensor (whatever the state), the
  optimizer counts its steps and leaves the parameters alone, \<open>random.random()\<close> returns
  \<open>u\<close>, \<open>random.choice\<close> returns index \<open>c\<close> (reduced into range), \<open>random.sample\<close> takes
  the oldest entries, and the simulator pays reward 1 at every step and reports done at
  its \<open>horizon\<close>-th step after a reset (never, when \<open>horizon = 0\<close>).
\<close>

definition example_world :: "real \<Rightarrow> nat \<Rightarrow> nat \<Rightarrow> (nat, unit, nat) world" where
  "example_world u c horizon =
     \<lparr> forward = (\<lambda>net s. case params net of [] \<Rightarrow> [] | (name, t) # ps \<Rightarrow> t),
       gradient_step = (\<lambda>opt net states actions targets. Inr (Suc opt, params net)),
       rand_random = (\<lambda>g. (u, g)),
       rand_choice = (\<lambda>n g. (c mod n, g)),
       rand_sample = (\<lambda>pop k g. (take k pop, g)),
       env_reset = (\<lambda>train_mode e. (([0], 0, False), 0)),
       env_step = (\<lambda>a e. (([0], 1, Suc e = horizon), Suc e)) \<rparr>"

definition example_net :: "tensor \<Rightarrow> qnetwork" where
  "example_net t =
     \<lparr> params = [(''fc1.weight'', t)], shapes = (\<lambda>name. [length t]), training = True \<rparr>"

text \<open>
  An agent in this world, constructed with \<open>state_size = 4\<close>, \<open>action_size = 2\<close>,
  \<open>buffer_size = 100\<close>, \<open>batch_size = 8\<close>, \<open>update_every = 4\<close> and the defaults of
  \<open>__init__\<close> for the rest, whose local and target networks have the parameters \<open>l\<close> and \<open>t\<close>.
\<close>

definition example_agent :: "tensor \<Rightarrow> tensor \<Rightarrow> (nat, unit) agent" where
  "example_agent l t =
     init 4 2 100 8 (99/100) (1/1000) (5/10000) 4 ''checkpoint.pth''
       (example_net l) (example_net t) 0 () Map.empty"

definition example_transition :: experience where
  "example_transition =
     \<lparr> exp_state = [0, 0, 0, 0], exp_action = 0, exp_reward = 1,
       exp_next_state = [0, 0, 0, 0], exp_done = False \<rparr>"

text \<open>
  What the agents of this world keep true from call to call: each network has the one
  parameter tensor of \<open>example_net\<close>, of the same non-zero size in both, the update period
  is not 0 and the batch size is not negative.
\<close>

definition example_inv :: "(nat, unit) agent \<Rightarrow> bool" where
  "example_inv ag \<longleftrightarrow>
     (\<exists>l t. qnetwork_local ag = example_net l \<and> qnetwork_target ag = example_net t \<and>
            length l = length t \<and> l \<noteq> []) \<and>
     update_every ag \<noteq> 0 \<and> 0 \<le> batch_size ag"

section \<open>The temporal-difference target\<close>

lemma row_max_Max: "row_max row = Max (set row)" if "row \<noteq> []"
proof (cases row)
  case Nil
  with that show ?thesis by simp
next
  case (Cons x xs)
  then show ?thesis using Max.set_eq_fold [of x xs] by simp
qed

lemma Q_targets_Inr:
  "Q_targets w tgt gam rewards next_states dones = Inr y \<longleftrightarrow>
     [] \<notin> set (map (forward w tgt) next_states) \<and> length rewards = length next_states \<and>
     length dones = length next_states \<and>
     y = map2 (\<lambda>r (q, d). r + (gam * q * (1 - d))) rewards
           (zip (map (\<lambda>s. row_max (forward w tgt s)) next_states) dones)"
  by (auto simp: Q_targets_def Let_def comp_def)

text \<open>
  Whenever lines 98 to 100 produce the targets \<open>y\<close> from a network \<open>tgt\<close>, there is one
  target per transition of the batch, the target of transition \<open>i\<close> is
  \<open>reward + gamma * max_a tgt(next_state, a) * (1 - done)\<close>, and for a terminal transition
  (\<open>done = 1\<close>) it is the reward itself, whatever the network, the discount factor and the
  next states are.
\<close>

lemma Q_targets_formula:
  assumes "Q_targets w tgt gam rewards next_states dones = Inr y"
  shows "length y = length rewards \<and>
     (\<forall>i < length y.
        y ! i = rewards ! i
                + gam * Max (set (forward w tgt (next_states ! i))) * (1 - dones ! i) \<and>
        (dones ! i = 1 \<longrightarrow> y ! i = rewards ! i \<and>
           (\<forall>tgt' gamma' next_states' y'.
              Q_targets w tgt' gamma' rewards next_states' dones = Inr y' \<longrightarrow> y' ! i = y ! i)))"
proof -
  from assms have ne: "[] \<notin> set (map (forward w tgt) next_states)"
    and lr: "length rewards = length next_states" and ld: "length dones = length next_states"
    and y: "y = map2 (\<lambda>r (q, d). r + (gam * q * (1 - d))) rewards
           (zip (map (\<lambda>s. row_max (forward w tgt s)) next_states) dones)"
    by (simp_all add: Q_targets_Inr)
  have len: "length y = length rewards" using lr ld y by simp
  have nth: "y ! i = rewards ! i + gam * row_max (forward w tgt (next_states ! i)) * (1 - dones ! i)"
    if "i < length y" for i
    using that lr ld y by simp
  have mx: "row_max (forward w tgt (next_states ! i)) = Max (set (forward w tgt (next_states ! i)))"
    if "i < length y" for i
  proof -
    from that len lr have "next_states ! i \<in> set next_states" by simp
    with ne have "forward w tgt (next_states ! i) \<noteq> []" by force
    then show ?thesis by (rule row_max_Max)
  qed
  have terminal: "y' ! i = y ! i"
    if "i < length y" "dones ! i = 1" "Q_targets w tgt' gamma' rewards next_states' dones = Inr y'"
    for i tgt' gamma' next_states' y'
  proof -
    from that(3) have lr': "length rewards = length next_states'"
      and ld': "length dones = length next_states'"
      and y': "y' = map2 (\<lambda>r (q, d). r + (gamma' * q * (1 - d))) rewards
           (zip (map (\<lambda>s. row_max (forward w tgt' s)) next_states') dones)"
      by (simp_all add: Q_targets_Inr)
    from that(1) len lr' ld' y'
    have "y' ! i = rewards ! i + gamma' * row_max (forward w tgt' (next_states' ! i)) * (1 - dones ! i)"
      by simp
    with that(2) nth[OF that(1)] show ?thesis by simp
  qed
  show ?thesis using len nth mx terminal by simp
qed

lemma Q_targets_defined:
  assumes "\<forall>s \<in> set next_states. forward w tgt s \<noteq> []"
    and "length rewards = length next_states" and "length dones = length next_states"
  shows "\<exists>y. Q_targets w tgt gam rewards next_states dones = Inr y"
  using assms by (auto simp: Q_targets_def Let_def)

lemma learn_Inr:
  assumes "learn w ag (states, actions, rewards, next_states, dones) gam = Inr ag'"
  shows "\<exists>y. Q_targets w (qnetwork_target ag) gam rewards next_states dones = Inr y \<and>
             gradient_step w (optimizer ag) (qnetwork_local ag) states actions y
               = Inr (optimizer ag', params (qnetwork_local ag'))"
  using assms by (auto simp: learn_def Let_def split: sum.splits prod.splits)

lemma learn_returns:
  assumes "Q_targets w (qnetwork_target ag) gam rewards next_states dones = Inr y"
    and "gradient_step w (optimizer ag) (qnetwork_local ag) states actions y = Inr (opt', ps')"
    and "soft_update ((qnetwork_local ag)\<lparr>params := ps'\<rparr>) (qnetwork_target ag) (tau ag)
           = Inr target'"
  shows "learn w ag (states, actions, rewards, next_states, dones) gam
           = Inr (ag\<lparr>optimizer := opt',
                     qnetwork_local := (qnetwork_local ag)\<lparr>params := ps'\<rparr>,
                     qnetwork_target := target',
                     learn_calls := Suc (learn_calls ag)\<rparr>)"
  using assms by (simp add: learn_def Let_def)

text \<open>
  C1. In \<open>learn\<close> on the batch \<open>(states, actions, rewards, next_states, dones)\<close> with
  discount \<open>gam\<close>: the targets are computed from the agent's target network when every
  next state has action values and the columns are aligned; the targets \<open>y\<close> have one entry
  per transition, entry \<open>i\<close> is
  \<open>reward + gam * max_a target(next_state, a) * (1 - done)\<close>, and for a terminal transition
  (\<open>done = 1\<close>) it is the reward itself, the same for any network, discount and next states;
  when the gradient step on these targets and the soft update return, \<open>learn\<close> returns the
  agent they give; and whenever \<open>learn\<close> returns, its gradient step on the local network was
  taken against exactly these targets.
\<close>

theorem learn_td_target:
  "((\<forall>s \<in> set next_states. forward w (qnetwork_target ag) s \<noteq> []) \<and>
    length rewards = length next_states \<and> length dones = length next_states
      \<longrightarrow> (\<exists>y. Q_targets w (qnetwork_target ag) gam rewards next_states dones = Inr y)) \<and>
   (\<forall>y. Q_targets w (qnetwork_target ag) gam rewards next_states dones = Inr y \<longrightarrow>
      length y = length rewards \<and>
      (\<forall>i < length y.
         y ! i = rewards ! i
                 + gam * Max (set (forward w (qnetwork_target ag) (next_states ! i)))
                   * (1 - dones ! i) \<and>
         (dones ! i = 1 \<longrightarrow> y ! i = rewards ! i \<and>
            (\<forall>tgt' gamma' next_states' y'.
               Q_targets w tgt' gamma' rewards next_states' dones = Inr y' \<longrightarrow> y' ! i = y ! i))) \<and>
      (\<forall>opt' ps' target'.
         gradient_step w (optimizer ag) (qnetwork_local ag) states actions y = Inr (opt', ps') \<and>
         soft_update ((qnetwork_local ag)\<lparr>params := ps'\<rparr>) (qnetwork_target ag) (tau ag)
           = Inr target'
         \<longrightarrow> learn w ag (states, actions, rewards, next_states, dones) gam
               = Inr (ag\<lparr>optimizer := opt',
                         qnetwork_local := (qnetwork_local ag)\<lparr>params := ps'\<rparr>,
                         qnetwork_target := target',
                         learn_calls := Suc (learn_calls ag)\<rparr>))) \<and>
   (\<forall>ag'. learn w ag (states, actions, rewards, next_states, dones) gam = Inr ag' \<longrightarrow>
      (\<exists>y. Q_targets w (qnetwork_target ag) gam rewards next_states dones = Inr y \<and>
           gradient_step w (optimizer ag) (qnetwork_local ag) states actions y
             = Inr (optimizer ag', params (qnetwork_local ag'))))"
proof (intro conjI allI impI)
  assume "(\<forall>s \<in> set next_states. forward w (qnetwork_target ag) s \<noteq> []) \<and>
    length rewards = length next_states \<and> length dones = length next_states"
  then show "\<exists>y. Q_targets w (qnetwork_target ag) gam rewards next_states dones = Inr y"
    by (simp add: Q_targets_defined)
next
  fix y assume y: "Q_targets w (qnetwork_target ag) gam rewards next_states dones = Inr y"
  from Q_targets_formula [OF y] show "length y = length rewards" by simp
next
  fix y i assume y: "Q_targets w (qnetwork_target ag) gam rewards next_states dones = Inr y"
    and i: "i < length y"
  from Q_targets_formula [OF y] i
  show "y ! i = rewards ! i
                 + gam * Max (set (forward w (qnetwork_target ag) (next_states ! i)))
                   * (1 - dones ! i)"
    by blast
next
  fix y i assume y: "Q_targets w (qnetwork_target ag) gam rewards next_states dones = Inr y"
    and i: "i < length y" and d: "dones ! i = 1"
  from Q_targets_formula [OF y] i d show "y ! i = rewards ! i" by blast
next
  fix y i tgt' gamma' next_states' y'
  assume y: "Q_targets w (qnetwork_target ag) gam rewards next_states dones = Inr y"
    and i: "i < length y" and d: "dones ! i = 1"
    and y': "Q_targets w tgt' gamma' rewards next_states' dones = Inr y'"
  from Q_targets_formula [OF y] i d y' show "y' ! i = y ! i" by blast
next
  fix y opt' ps' target'
  assume y: "Q_targets w (qnetwork_target ag) gam rewards next_states dones = Inr y"
    and g: "gradient_step w (optimizer ag) (qnetwork_local ag) states actions y = Inr (opt', ps') \<and>
         soft_update ((qnetwork_local ag)\<lparr>params := ps'\<rparr>) (qnetwork_target ag) (tau ag)
           = Inr target'"
  from g have g1: "gradient_step w (optimizer ag) (qnetwork_local ag) states actions y = Inr (opt', ps')"
    and g2: "soft_update ((qnetwork_local ag)\<lparr>params := ps'\<rparr>) (qnetwork_target ag) (tau ag)
           = Inr target'" by simp_all
  from learn_returns [OF y g1 g2]
  show "learn w ag (states, actions, rewards, next_states, dones) gam
               = Inr (ag\<lparr>optimizer := opt',
                         qnetwork_local := (qnetwork_local ag)\<lparr>params := ps'\<rparr>,
                         qnetwork_target := target',
                         learn_calls := Suc (learn_calls ag)\<rparr>)" .
next
  fix ag' assume "learn w ag (states, actions, rewards, next_states, dones) gam = Inr ag'"
  then show "\<exists>y. Q_targets w (qnetwork_target ag) gam rewards next_states dones = Inr y \<and>
           gradient_step w (optimizer ag) (qnetwork_local ag) states actions y
             = Inr (optimizer ag', params (qnetwork_local ag'))"
    by (rule learn_Inr)
qed

theorem learn_td_target_witness:
  "Q_targets (example_world (1/2) 0 3) (qnetwork_target (example_agent [7, 9] [1, 3])) (99/100)
      [1, 2] [[0], [5]] [0, 1] = Inr [397/100, 2] \<and>
   [397/100, 2] ! 0 = [1, 2] ! 0 + 99/100 * Max (set [1, 3::real]) * (1 - [0, 1] ! 0) \<and>
   [397/100, 2::real] ! 1 = [1, 2] ! 1 \<and>
   Q_targets (example_world (1/2) 0 3) (example_net [7, 9]) (1/2) [1, 2] [[4], [4]] [0, 1]
     = Inr [11/2, 2] \<and>
   [11/2, 2::real] ! 1 = [397/100, 2] ! 1 \<and>
   gradient_step (example_world (1/2) 0 3) (optimizer (example_agent [7, 9] [1, 3]))
      (qnetwork_local (example_agent [7, 9] [1, 3])) [[0], [5]] [0, 1] [397/100, 2]
     = Inr (1, [(''fc1.weight'', [7, 9])]) \<and>
   learn (example_world (1/2) 0 3) (example_agent [7, 9] [1, 3])
      ([[0], [5]], [0, 1], [1, 2], [[0], [5]], [0, 1]) (99/100)
     = Inr ((example_agent [7, 9] [1, 3])
              \<lparr>optimizer := 1, qnetwork_local := example_net [7, 9],
               qnetwork_target := example_net [503/500, 1503/500], learn_calls := 1\<rparr>)"
proof -
  let ?W = "example_world (1/2) 0 3" and ?A = "example_agent [7, 9] [1, 3]"
  note th = learn_td_target [of "[[0], [5]]" ?W ?A "[1, 2]" "[0, 1]" "99/100" "[[0], [5]]" "[0, 1]"]
  have tgt: "qnetwork_target ?A = example_net [1, 3]" and loc: "qnetwork_local ?A = example_net [7, 9]"
    and opt: "optimizer ?A = 0" and ta: "tau ?A = 1/1000" and lc: "learn_calls ?A = 0"
    by (simp_all add: example_agent_def init_def)
  have f: "forward ?W (example_net [1, 3]) s = [1, 3]" for s
    by (simp add: example_world_def example_net_def)
  have h: "Q_targets ?W (qnetwork_target ?A) (99/100) [1, 2] [[0], [5]] [0, 1] = Inr [397/100, 2]"
    by (simp add: tgt Q_targets_def example_world_def example_net_def)
  have h': "Q_targets ?W (example_net [7, 9]) (1/2) [1, 2] [[4], [4]] [0, 1] = Inr [11/2, 2]"
    by (simp add: Q_targets_def example_world_def example_net_def)
  from th h have all: "\<forall>i<length [397/100, 2::real].
         [397/100, 2] ! i = [1, 2] ! i
                 + 99/100 * Max (set (forward ?W (qnetwork_target ?A) ([[0], [5]] ! i)))
                   * (1 - [0, 1] ! i) \<and>
         ([0, 1::real] ! i = 1 \<longrightarrow> [397/100, 2::real] ! i = [1, 2] ! i \<and>
            (\<forall>tgt' gamma' next_states' y'.
               Q_targets ?W tgt' gamma' [1, 2] next_states' [0, 1] = Inr y'
                 \<longrightarrow> y' ! i = [397/100, 2] ! i))"
    by blast
  have "(0::nat) < length [397/100, 2::real]" by simp
  with all have "[397/100, 2] ! 0 = [1, 2] ! 0
                 + 99/100 * Max (set (forward ?W (qnetwork_target ?A) ([[0], [5]] ! 0)))
                   * (1 - [0, 1] ! 0)"
    by blast
  then have a0: "[397/100, 2] ! 0 = [1, 2] ! 0 + 99/100 * Max (set [1, 3::real]) * (1 - [0, 1] ! 0)"
    by (simp add: tgt f)
  have "(1::nat) < length [397/100, 2::real]" by simp
  with all have "[0, 1::real] ! 1 = 1 \<longrightarrow> [397/100, 2::real] ! 1 = [1, 2] ! 1 \<and>
            (\<forall>tgt' gamma' next_states' y'.
               Q_targets ?W tgt' gamma' [1, 2] next_states' [0, 1] = Inr y'
                 \<longrightarrow> y' ! 1 = [397/100, 2] ! 1)"
    by blast
  then have a1: "[397/100, 2::real] ! 1 = [1, 2] ! 1"
    and a2: "\<And>tgt' gamma' next_states' y'.
      Q_targets ?W tgt' gamma' [1, 2] next_states' [0, 1] = Inr y'
        \<Longrightarrow> y' ! 1 = [397/100, 2] ! 1" by simp_all
  have g: "gradient_step ?W (optimizer ?A) (qnetwork_local ?A) [[0], [5]] [0, 1] [397/100, 2]
      = Inr (1, [(''fc1.weight'', [7, 9])])"
    by (simp add: opt loc example_world_def example_net_def)
  have su: "soft_update ((qnetwork_local ?A)\<lparr>params := [(''fc1.weight'', [7, 9])]\<rparr>)
      (qnetwork_target ?A) (tau ?A) = Inr (example_net [503/500, 1503/500])"
    by (simp add: tgt loc ta soft_update_def parameters_def example_net_def blend_def)
  from th h g su
  have "learn ?W ?A ([[0], [5]], [0, 1], [1, 2], [[0], [5]], [0, 1]) (99/100)
     = Inr (?A\<lparr>optimizer := 1,
               qnetwork_local := (qnetwork_local ?A)\<lparr>params := [(''fc1.weight'', [7, 9])]\<rparr>,
               qnetwork_target := example_net [503/500, 1503/500],
               learn_calls := Suc (learn_calls ?A)\<rparr>)"
    by blast
  moreover have "(qnetwork_local ?A)\<lparr>params := [(''fc1.weight'', [7, 9])]\<rparr> = example_net [7, 9]"
    by (simp add: loc example_net_def)
  ultimately have l: "learn ?W ?A ([[0], [5]], [0, 1], [1, 2], [[0], [5]], [0, 1]) (99/100)
     = Inr (?A\<lparr>optimizer := 1, qnetwork_local := example_net [7, 9],
               qnetwork_target := example_net [503/500, 1503/500], learn_calls := 1\<rparr>)"
    by (simp add: lc)
  show ?thesis using h a0 a1 h' a2 [OF h'] g l by blast
qed

section \<open>The soft update\<close>

lemma blend_Inr:
  "blend ta l t = Inr t' \<longleftrightarrow> length l = length t \<and> t' = map2 (\<lambda>x y. ta * x + (1 - ta) * y) l t"
  by (auto simp: blend_def)

lemma soft_update_params_names:
  "soft_update_params ls ts ta = Inr ts' \<Longrightarrow> map fst ts' = map fst ts"
  by (induction ls ts ta arbitrary: ts' rule: soft_update_params.induct)
     (auto split: sum.splits)

lemma soft_update_params_length:
  "soft_update_params ls ts ta = Inr ts' \<Longrightarrow> length ts' = length ts"
  using soft_update_params_names [of ls ts ta ts'] by (metis length_map)

lemma soft_update_params_nth:
  "soft_update_params ls ts ta = Inr ts' \<Longrightarrow> i < length ts \<Longrightarrow>
     snd (ts' ! i) =
       (if i < length ls then map2 (\<lambda>x y. ta * x + (1 - ta) * y) (ls ! i) (snd (ts ! i))
        else snd (ts ! i))"
proof (induction ls ts ta arbitrary: ts' i rule: soft_update_params.induct)
  case (1 l ls name t ts ta)
  then show ?case
    by (cases i) (auto split: sum.splits simp: blend_Inr)
qed auto

lemma map2_zero_left:
  "length l = length t \<Longrightarrow> map2 (\<lambda>x y. y) l t = t"
  by (induction l t rule: list_induct2) auto

lemma map2_one_left:
  "length l = length t \<Longrightarrow> map2 (\<lambda>x y. x) l t = l"
  by (induction l t rule: list_induct2) auto

lemma soft_update_params_tau0:
  "soft_update_params ls ts 0 = Inr ts' \<Longrightarrow> ts' = ts"
  by (induction ls ts "0::real" arbitrary: ts' rule: soft_update_params.induct)
     (auto split: sum.splits simp: blend_Inr map2_zero_left)

lemma soft_update_params_tau1:
  "soft_update_params ls ts 1 = Inr ts' \<Longrightarrow> i < length ts \<Longrightarrow> i < length ls \<Longrightarrow>
     snd (ts' ! i) = ls ! i"
proof (induction ls ts "1::real" arbitrary: ts' i rule: soft_update_params.induct)
  case (1 l ls name t ts)
  then show ?case
    by (cases i) (auto split: sum.splits simp: blend_Inr map2_one_left)
qed auto

lemma soft_update_params_defined:
  "map length ls = map (length \<circ> snd) ts \<Longrightarrow> \<exists>ts'. soft_update_params ls ts ta = Inr ts'"
proof (induction ls ts ta rule: soft_update_params.induct)
  case (1 l ls name t ts ta)
  then show ?case by (auto simp: blend_def)
qed auto

text \<open>
  C2. When the two networks have parameters of the same sizes, \<open>soft_update\<close> returns; and
  whenever it returns, the target keeps its parameter names and its mode, every target
  parameter that has a local partner at the same position becomes
  \<open>tau * local + (1 - tau) * target\<close> entry by entry (so with \<open>tau = 1\<close> it is the local
  parameter), a target parameter without a partner stays as it is, and with \<open>tau = 0\<close> the
  target network is unchanged.
\<close>

theorem soft_update_interpolates:
  "(map length (parameters local_model) = map length (parameters target_model)
      \<longrightarrow> (\<exists>target'. soft_update local_model target_model ta = Inr target')) \<and>
   (\<forall>target'. soft_update local_model target_model ta = Inr target' \<longrightarrow>
      map fst (params target') = map fst (params target_model) \<and>
      training target' = training target_model \<and>
      length (parameters target') = length (parameters target_model) \<and>
      (\<forall>i < length (parameters target_model).
         (i < length (parameters local_model) \<longrightarrow>
            parameters target' ! i =
              map2 (\<lambda>l t. ta * l + (1 - ta) * t)
                (parameters local_model ! i) (parameters target_model ! i) \<and>
            (ta = 1 \<longrightarrow> parameters target' ! i = parameters local_model ! i)) \<and>
         (length (parameters local_model) \<le> i \<longrightarrow>
            parameters target' ! i = parameters target_model ! i)) \<and>
      (ta = 0 \<longrightarrow> target' = target_model))"
proof (intro conjI impI allI)
  assume "map length (parameters local_model) = map length (parameters target_model)"
  then have "map length (parameters local_model) = map (length \<circ> snd) (params target_model)"
    by (simp add: parameters_def)
  from soft_update_params_defined [OF this, of ta]
  show "\<exists>target'. soft_update local_model target_model ta = Inr target'"
    by (auto simp: soft_update_def)
next
  fix target' assume "soft_update local_model target_model ta = Inr target'"
  then obtain ps where ps: "soft_update_params (parameters local_model) (params target_model) ta = Inr ps"
    and t': "target' = target_model\<lparr>params := ps\<rparr>"
    by (auto simp: soft_update_def split: sum.splits)
  note len = soft_update_params_length [OF ps]
  show "map fst (params target') = map fst (params target_model)"
    using soft_update_params_names [OF ps] t' by simp
  show "training target' = training target_model" using t' by simp
  show "length (parameters target') = length (parameters target_model)"
    using len t' by (simp add: parameters_def)
  show "ta = 0 \<Longrightarrow> target' = target_model"
    using soft_update_params_tau0 [of "parameters local_model" "params target_model" ps] ps t'
    by simp
  fix i assume i: "i < length (parameters target_model)"
  then have i': "i < length (params target_model)" by (simp add: parameters_def)
  have nth: "parameters target' ! i = snd (ps ! i)" "parameters target_model ! i = snd (params target_model ! i)"
    using i' len t' by (simp_all add: parameters_def)
  show "length (parameters local_model) \<le> i \<Longrightarrow> parameters target' ! i = parameters target_model ! i"
    using soft_update_params_nth [OF ps i'] nth by simp
  assume il: "i < length (parameters local_model)"
  show "parameters target' ! i =
              map2 (\<lambda>l t. ta * l + (1 - ta) * t)
                (parameters local_model ! i) (parameters target_model ! i)"
    using soft_update_params_nth [OF ps i'] nth il by simp
  show "ta = 1 \<Longrightarrow> parameters target' ! i = parameters local_model ! i"
    using soft_update_params_tau1 [of "parameters local_model" "params target_model" ps i] ps i' il nth
    by simp
qed

theorem soft_update_interpolates_witness:
  "soft_update (example_net [1, 2]) (example_net [3, 5]) (1/4) = Inr (example_net [5/2, 17/4]) \<and>
   parameters (example_net [5/2, 17/4]) ! 0 =
     map2 (\<lambda>l t. 1/4 * l + (1 - 1/4) * t)
       (parameters (example_net [1, 2]) ! 0) (parameters (example_net [3, 5]) ! 0) \<and>
   soft_update (example_net [1, 2]) (example_net [3, 5]) 0 = Inr (example_net [3, 5]) \<and>
   soft_update (example_net [1, 2]) (example_net [3, 5]) 1 = Inr (example_net [1, 2])"
proof -
  let ?L = "example_net [1, 2]" and ?T = "example_net [3, 5]"
  have shapes: "map length (parameters ?L) = map length (parameters ?T)"
    by (simp add: parameters_def example_net_def)
  have n: "0 < length (parameters ?T)" "0 < length (parameters ?L)"
    by (simp_all add: parameters_def example_net_def)
  have q: "soft_update ?L ?T (1/4) = Inr (example_net [5/2, 17/4])"
    by (simp add: soft_update_def parameters_def example_net_def blend_def)
  have z: "soft_update ?L ?T 0 = Inr ?T"
  proof -
    from soft_update_interpolates [of ?L ?T 0] shapes
    obtain t' where t': "soft_update ?L ?T 0 = Inr t'" by blast
    with soft_update_interpolates [of ?L ?T 0] have "t' = ?T" by blast
    with t' show ?thesis by simp
  qed
  have o: "soft_update ?L ?T 1 = Inr ?L"
    by (simp add: soft_update_def parameters_def example_net_def blend_def)
  from soft_update_interpolates [of ?L ?T "1/4"] q n
  have "parameters (example_net [5/2, 17/4]) ! 0 =
     map2 (\<lambda>l t. 1/4 * l + (1 - 1/4) * t) (parameters ?L ! 0) (parameters ?T ! 0)"
    by blast
  with q z o show ?thesis by simp
qed

section \<open>Action selection\<close>

text \<open>
  The scan keeps, for the entries seen so far, the first index of their maximum: \<open>ys\<close> are
  the entries before position \<open>length ys\<close>, the best of them is \<open>ys ! best = v\<close>.
\<close>

lemma argmax_from_first_max:
  assumes "best < length ys" "ys ! best = v" "\<forall>j < length ys. ys ! j \<le> v"
    "\<forall>j < best. ys ! j < v"
  shows "argmax_from best v (length ys) xs < length (ys @ xs) \<and>
         (\<forall>j < length (ys @ xs). (ys @ xs) ! j \<le> (ys @ xs) ! argmax_from best v (length ys) xs) \<and>
         (\<forall>j < argmax_from best v (length ys) xs.
             (ys @ xs) ! j < (ys @ xs) ! argmax_from best v (length ys) xs)"
  using assms
proof (induction xs arbitrary: best v ys)
  case Nil
  then show ?case by simp
next
  case (Cons x xs)
  show ?case
  proof (cases "x > v")
    case True
    have "argmax_from (length ys) x (length (ys @ [x])) xs < length ((ys @ [x]) @ xs) \<and>
         (\<forall>j < length ((ys @ [x]) @ xs). ((ys @ [x]) @ xs) ! j \<le> ((ys @ [x]) @ xs) ! argmax_from (length ys) x (length (ys @ [x])) xs) \<and>
         (\<forall>j < argmax_from (length ys) x (length (ys @ [x])) xs.
             ((ys @ [x]) @ xs) ! j < ((ys @ [x]) @ xs) ! argmax_from (length ys) x (length (ys @ [x])) xs)"
    proof (rule Cons.IH)
      show "length ys < length (ys @ [x])" by simp
      show "(ys @ [x]) ! length ys = x" by simp
      show "\<forall>j<length (ys @ [x]). (ys @ [x]) ! j \<le> x"
        using Cons.prems(3) True by (auto simp: nth_append less_Suc_eq intro: less_imp_le order_trans)
      show "\<forall>j<length ys. (ys @ [x]) ! j < x"
        using Cons.prems(3) True by (auto simp: nth_append)
    qed
    with True show ?thesis by simp
  next
    case False
    have "argmax_from best v (length (ys @ [x])) xs < length ((ys @ [x]) @ xs) \<and>
         (\<forall>j < length ((ys @ [x]) @ xs). ((ys @ [x]) @ xs) ! j \<le> ((ys @ [x]) @ xs) ! argmax_from best v (length (ys @ [x])) xs) \<and>
         (\<forall>j < argmax_from best v (length (ys @ [x])) xs.
             ((ys @ [x]) @ xs) ! j < ((ys @ [x]) @ xs) ! argmax_from best v (length (ys @ [x])) xs)"
    proof (rule Cons.IH)
      show "best < length (ys @ [x])" using Cons.prems(1) by simp
      show "(ys @ [x]) ! best = v" using Cons.prems(1,2) by (simp add: nth_append)
      show "\<forall>j<length (ys @ [x]). (ys @ [x]) ! j \<le> v"
        using Cons.prems(3) False by (auto simp: nth_append less_Suc_eq)
      show "\<forall>j<best. (ys @ [x]) ! j < v"
        using Cons.prems(1,4) by (auto simp: nth_append)
    qed
    with False show ?thesis by simp
  qed
qed

lemma argmax_Inr:
  assumes "argmax xs = Inr i"
  shows "i < length xs \<and> xs ! i = Max (set xs) \<and> (\<forall>j < i. xs ! j < xs ! i)"
proof -
  from assms obtain x xs' where xs: "xs = x # xs'" and i: "i = argmax_from 0 x 1 xs'"
    by (auto simp: argmax_def split: list.splits)
  from argmax_from_first_max [of 0 "[x]" x xs'] xs i
  have a: "i < length xs" and b: "\<forall>j < length xs. xs ! j \<le> xs ! i" and c: "\<forall>j < i. xs ! j < xs ! i"
    by simp_all
  have "xs ! i = Max (set xs)"
  proof (rule antisym)
    show "xs ! i \<le> Max (set xs)" using a by simp
    have "y \<le> xs ! i" if "y \<in> set xs" for y
      using that b by (metis in_set_conv_nth)
    moreover have "set xs \<noteq> {}" using xs by simp
    ultimately show "Max (set xs) \<le> xs ! i" by simp
  qed
  with a c show ?thesis by simp
qed

lemma argmax_defined: "xs \<noteq> [] \<Longrightarrow> \<exists>i. argmax xs = Inr i"
  by (cases xs) (simp_all add: argmax_def)

lemma act_greedy:
  assumes "fst (rand_random w (rng ag)) > epsilon"
  shows "act w ag s epsilon =
     (case argmax (forward w ((qnetwork_local ag)\<lparr>training := False\<rparr>) s) of
        Inl e \<Rightarrow> Inl e
      | Inr i \<Rightarrow> Inr (int i, ag\<lparr>qnetwork_local := (qnetwork_local ag)\<lparr>training := True\<rparr>,
                               rng := snd (rand_random w (rng ag))\<rparr>))"
proof -
  obtain u g1 where r: "rand_random w (rng ag) = (u, g1)" by (cases "rand_random w (rng ag)")
  with assms have "u > epsilon" by simp
  with r show ?thesis by (simp add: act_def Let_def split: sum.splits)
qed

text \<open>
  On every draw of \<open>random.random()\<close> above \<open>eps\<close>, \<open>act\<close> returns the first index at which
  the action values of the local network (evaluated in inference mode) are largest.
\<close>

lemma act_greedy_first_max:
  assumes "fst (rand_random w (rng ag)) > epsilon" and "act w ag s epsilon = Inr (a, ag')"
  shows "\<exists>i. a = int i \<and> i < length (forward w ((qnetwork_local ag)\<lparr>training := False\<rparr>) s) \<and>
     forward w ((qnetwork_local ag)\<lparr>training := False\<rparr>) s ! i
       = Max (set (forward w ((qnetwork_local ag)\<lparr>training := False\<rparr>) s)) \<and>
     (\<forall>j < i. forward w ((qnetwork_local ag)\<lparr>training := False\<rparr>) s ! j
         < forward w ((qnetwork_local ag)\<lparr>training := False\<rparr>) s ! i)"
proof -
  from assms act_greedy [OF assms(1), of s]
  obtain i where "argmax (forward w ((qnetwork_local ag)\<lparr>training := False\<rparr>) s) = Inr i"
    and "a = int i"
    by (auto split: sum.splits)
  with argmax_Inr [OF this(1)] show ?thesis by blast
qed

text \<open>
  C3, at the input where it fails. \<open>random.random()\<close> returns a number in [0, 1), and 0.0 is
  one of them. On that draw the test \<open>random.random() > eps\<close> of line 83 is false for
  \<open>eps = 0\<close>, and \<open>act\<close> returns what \<open>random.choice\<close> gives (here action 0), although the
  maximum of the action values [1, 3] is at index 1.
\<close>

theorem act_eps0_zero_draw:
  "act (example_world 0 0 3) (example_agent [1, 3] [1, 3]) [0, 0, 0, 0] 0
     = Inr (0, example_agent [1, 3] [1, 3]) \<and>
   argmax (forward (example_world 0 0 3) (qnetwork_local (example_agent [1, 3] [1, 3])) [0, 0, 0, 0])
     = Inr 1"
  by (simp add: act_def argmax_def example_world_def example_agent_def example_net_def init_def)

text \<open>
  C9. Whenever \<open>act\<close> returns, for any state and any epsilon, the agent after the call is the
  agent before it except for the mode flag of the local network (set by \<open>train()\<close>) and the
  state of the random generator: the parameters of both networks, the optimizer (with it
  every gradient the differentiation keeps), the replay memory and the step counter are
  unchanged.
\<close>

theorem act_frame:
  assumes "act w ag s epsilon = Inr (a, ag')"
  shows "params (qnetwork_local ag') = params (qnetwork_local ag) \<and>
         qnetwork_target ag' = qnetwork_target ag \<and>
         optimizer ag' = optimizer ag \<and>
         memory ag' = memory ag \<and>
         t_step ag' = t_step ag \<and>
         learn_calls ag' = learn_calls ag \<and>
         ag' = ag\<lparr>qnetwork_local := (qnetwork_local ag)\<lparr>training := True\<rparr>, rng := rng ag'\<rparr>"
  using assms
  by (auto simp: act_def Let_def split: prod.splits sum.splits if_splits)

theorem act_frame_witness:
  "act (example_world (1/2) 0 3) (example_agent [1, 3] [0, 0]) [0, 0, 0, 0] (1/10)
     = Inr (1, example_agent [1, 3] [0, 0]) \<and>
   params (qnetwork_local (example_agent [1, 3] [0, 0])) = [(''fc1.weight'', [1, 3])] \<and>
   qnetwork_target (example_agent [1, 3] [0, 0]) = example_net [0, 0] \<and>
   optimizer (example_agent [1, 3] [0, 0]) = 0 \<and>
   memory (example_agent [1, 3] [0, 0]) = [] \<and>
   t_step (example_agent [1, 3] [0, 0]) = 0"
proof -
  have h: "act (example_world (1/2) 0 3) (example_agent [1, 3] [0, 0]) [0, 0, 0, 0] (1/10)
     = Inr (1, example_agent [1, 3] [0, 0])"
    by (simp add: act_def argmax_def example_world_def example_agent_def example_net_def init_def)
  have e: "params (qnetwork_local (example_agent [1, 3] [0, 0])) = [(''fc1.weight'', [1, 3])]"
    "qnetwork_target (example_agent [1, 3] [0, 0]) = example_net [0, 0]"
    "optimizer (example_agent [1, 3] [0, 0]) = 0"
    "memory (example_agent [1, 3] [0, 0]) = []"
    "t_step (example_agent [1, 3] [0, 0]) = 0"
    by (simp_all add: example_agent_def example_net_def init_def)
  from act_frame [OF h] h e show ?thesis by simp
qed

section \<open>The cadence of \<open>step\<close>\<close>

lemma length_deque_append: "length (deque_append cap xs x) = min cap (Suc (length xs))"
  by (auto simp: deque_append_def Let_def)

lemma last_deque_append: "0 < cap \<Longrightarrow> last (deque_append cap xs x) = x"
  by (simp add: deque_append_def Let_def last_drop)

lemma learn_frame:
  assumes "learn w ag batch g = Inr ag'"
  shows "ag' = ag\<lparr>optimizer := optimizer ag', qnetwork_local := qnetwork_local ag',
                  qnetwork_target := qnetwork_target ag',
                  learn_calls := Suc (learn_calls ag)\<rparr>"
  using assms by (auto simp: learn_def Let_def split: prod.splits sum.splits)

lemma learn_keeps:
  assumes "learn w ag batch g = Inr ag'"
  shows "memory ag' = memory ag" "t_step ag' = t_step ag" "learn_calls ag' = Suc (learn_calls ag)"
    "buffer_size ag' = buffer_size ag" "batch_size ag' = batch_size ag"
    "update_every ag' = update_every ag"
  using assms by (auto simp: learn_def Let_def split: prod.splits sum.splits)


lemma step_unfold:
  assumes "update_every ag \<noteq> 0"
  shows "step w ag s a r s' d =
     (let ag2 = ag\<lparr>memory := memory_add (buffer_size ag) (memory ag)
                       \<lparr>exp_state = s, exp_action = a, exp_reward = r,
                        exp_next_state = s', exp_done = d\<rparr>,
                    t_step := (t_step ag + 1) mod update_every ag\<rparr>
      in if t_step ag2 = 0 \<and> int (length (memory ag2)) > batch_size ag
         then (case memory_sample w (memory ag2) (batch_size ag) (rng ag) of
                 Inl err \<Rightarrow> Inl err
               | Inr (batch, g') \<Rightarrow> learn w (ag2\<lparr>rng := g'\<rparr>) batch (gamma ag))
         else Inr ag2)"
  using assms by (simp add: step_def Let_def split: sum.splits prod.splits)

lemma step_update_every_zero:
  "update_every ag = 0 \<Longrightarrow> step w ag s a r s' d = Inl ZeroDivisionError"
  by (simp add: step_def Let_def)

lemma step_Inr_cases:
  assumes "step w ag s a r s' d = Inr ag'"
  defines "ag2 \<equiv> ag\<lparr>memory := memory_add (buffer_size ag) (memory ag)
                       \<lparr>exp_state = s, exp_action = a, exp_reward = r,
                        exp_next_state = s', exp_done = d\<rparr>,
                    t_step := (t_step ag + 1) mod update_every ag\<rparr>"
  shows "update_every ag \<noteq> 0 \<and>
    (if t_step ag2 = 0 \<and> int (length (memory ag2)) > batch_size ag
     then \<exists>batch g'. memory_sample w (memory ag2) (batch_size ag) (rng ag) = Inr (batch, g') \<and>
             learn w (ag2\<lparr>rng := g'\<rparr>) batch (gamma ag) = Inr ag'
     else ag' = ag2)"
proof -
  from assms(1) have u: "update_every ag \<noteq> 0"
    by (auto simp: step_update_every_zero)
  show ?thesis
    using assms(1) u unfolding step_unfold [OF u] ag2_def Let_def
    by (auto split: if_splits sum.splits prod.splits)
qed

lemma step_cadence_of:
  assumes "step w ag s a r s' d = Inr ag'"
  shows "cadence_of ag' =
           cadence (buffer_size ag) (batch_size ag) (update_every ag) 1 (cadence_of ag) \<and>
         buffer_size ag' = buffer_size ag \<and> batch_size ag' = batch_size ag \<and>
         update_every ag' = update_every ag"
proof -
  define ag2 where "ag2 = ag\<lparr>memory := memory_add (buffer_size ag) (memory ag)
                       \<lparr>exp_state = s, exp_action = a, exp_reward = r,
                        exp_next_state = s', exp_done = d\<rparr>,
                    t_step := (t_step ag + 1) mod update_every ag\<rparr>"
  have len: "length (memory ag2) = min (buffer_size ag) (Suc (length (memory ag)))"
    by (simp add: ag2_def memory_add_def length_deque_append)
  have t: "t_step ag2 = (t_step ag + 1) mod update_every ag" by (simp add: ag2_def)
  have cfg: "buffer_size ag2 = buffer_size ag" "batch_size ag2 = batch_size ag"
    "update_every ag2 = update_every ag" "learn_calls ag2 = learn_calls ag"
    by (simp_all add: ag2_def)
  show ?thesis
  proof (cases "t_step ag2 = 0 \<and> int (length (memory ag2)) > batch_size ag")
    case True
    with step_Inr_cases [OF assms] obtain batch g'
      where "learn w (ag2\<lparr>rng := g'\<rparr>) batch (gamma ag) = Inr ag'"
      unfolding ag2_def by auto
    from learn_keeps [OF this] True len t cfg show ?thesis
      by (simp add: cadence_of_def Let_def)
  next
    case False
    with step_Inr_cases [OF assms] have "ag' = ag2" unfolding ag2_def by auto
    with False len t cfg show ?thesis
      by (auto simp: cadence_of_def Let_def)
  qed
qed

lemma cadence_add:
  "cadence cap b u (m + n) c = cadence cap b u n (cadence cap b u m c)"
  by (induction cap b u m c rule: cadence.induct) (simp_all add: Let_def)

lemma feed_cadence_of:
  assumes "feed w ag xs = Inr ag'"
  shows "cadence_of ag' =
           cadence (buffer_size ag) (batch_size ag) (update_every ag) (length xs) (cadence_of ag) \<and>
         buffer_size ag' = buffer_size ag \<and> batch_size ag' = batch_size ag \<and>
         update_every ag' = update_every ag"
  using assms
proof (induction xs arbitrary: ag)
  case Nil
  then show ?case by simp
next
  case (Cons x xs)
  then obtain ag1 where
    s: "step w ag (exp_state x) (exp_action x) (exp_reward x) (exp_next_state x) (exp_done x) = Inr ag1"
    and f: "feed w ag1 xs = Inr ag'"
    by (auto split: sum.splits)
  from step_cadence_of [OF s] Cons.IH [OF f] cadence_add [of _ _ _ 1 "length xs"]
  show ?case by simp
qed

lemma cadence_50: "cadence 100 8 4 50 (0, 0, 0) = (2, 50, 10)"
  by code_simp

text \<open>
  C4. For an agent with a positive update period and a replay memory of positive capacity,
  a call of \<open>step\<close> puts the transition at the end of the memory and sets the counter to
  \<open>(t_step + 1) mod update_every\<close>, which lies in \<open>[0, update_every)\<close>. If the new counter is 0
  and the memory is now longer than \<open>batch_size\<close>, the call is \<open>learn\<close> on a batch sampled from
  the memory that already holds the transition (one more call of \<open>learn\<close> when it returns);
  otherwise the call returns the agent with only the memory and the counter changed, and
  \<open>learn\<close> is not called.
\<close>

theorem step_stores_counts_learns:
  assumes "0 < update_every ag" and "0 < buffer_size ag"
  shows
    "let x = \<lparr>exp_state = s, exp_action = a, exp_reward = r, exp_next_state = s', exp_done = d\<rparr>;
         ag2 = ag\<lparr>memory := memory_add (buffer_size ag) (memory ag) x,
                  t_step := (t_step ag + 1) mod update_every ag\<rparr>;
         due = (t_step ag2 = 0 \<and> int (length (memory ag2)) > batch_size ag)
     in last (memory ag2) = x \<and> 0 \<le> t_step ag2 \<and> t_step ag2 < update_every ag \<and>
        step w ag s a r s' d =
          (if due
           then (case memory_sample w (memory ag2) (batch_size ag) (rng ag) of
                   Inl err \<Rightarrow> Inl err
                 | Inr (batch, g') \<Rightarrow> learn w (ag2\<lparr>rng := g'\<rparr>) batch (gamma ag))
           else Inr ag2) \<and>
        (\<forall>ag'. step w ag s a r s' d = Inr ag' \<longrightarrow>
           memory ag' = memory ag2 \<and> t_step ag' = t_step ag2 \<and>
           learn_calls ag' = (if due then Suc (learn_calls ag) else learn_calls ag) \<and>
           (\<not> due \<longrightarrow> ag' = ag2))"
proof -
  define x where "x = \<lparr>exp_state = s, exp_action = a, exp_reward = r, exp_next_state = s', exp_done = d\<rparr>"
  define ag2 where "ag2 = ag\<lparr>memory := memory_add (buffer_size ag) (memory ag) x,
                  t_step := (t_step ag + 1) mod update_every ag\<rparr>"
  define due where "due \<longleftrightarrow> t_step ag2 = 0 \<and> int (length (memory ag2)) > batch_size ag"
  from assms(1) have u: "update_every ag \<noteq> 0" by simp
  have 1: "last (memory ag2) = x"
    using assms(2) by (simp add: ag2_def memory_add_def last_deque_append)
  have 2: "0 \<le> t_step ag2" "t_step ag2 < update_every ag"
    using assms(1) by (simp_all add: ag2_def)
  have 3: "step w ag s a r s' d =
          (if due
           then (case memory_sample w (memory ag2) (batch_size ag) (rng ag) of
                   Inl err \<Rightarrow> Inl err
                 | Inr (batch, g') \<Rightarrow> learn w (ag2\<lparr>rng := g'\<rparr>) batch (gamma ag))
           else Inr ag2)"
    unfolding step_unfold [OF u] due_def ag2_def x_def Let_def by simp
  have 4: "memory ag' = memory ag2 \<and> t_step ag' = t_step ag2 \<and>
           learn_calls ag' = (if due then Suc (learn_calls ag) else learn_calls ag) \<and>
           (\<not> due \<longrightarrow> ag' = ag2)" if "step w ag s a r s' d = Inr ag'" for ag'
  proof (cases due)
    case True
    with step_Inr_cases [OF that] obtain batch g'
      where "learn w (ag2\<lparr>rng := g'\<rparr>) batch (gamma ag) = Inr ag'"
      unfolding ag2_def due_def x_def by auto
    from learn_keeps(1-3) [OF this] True show ?thesis by (simp add: ag2_def)
  next
    case False
    with step_Inr_cases [OF that] have "ag' = ag2" unfolding ag2_def due_def x_def by auto
    with False show ?thesis by (simp add: ag2_def)
  qed
  from 1 2 3 4 show ?thesis
    unfolding Let_def x_def [symmetric] ag2_def [symmetric] due_def [symmetric] by blast
qed

subsection \<open>The example world never raises\<close>

lemma example_Q_targets_defined:
  assumes "t \<noteq> []"
  shows "\<exists>y. Q_targets (example_world u c h) (example_net t) g
            (map exp_reward b) (map exp_next_state b) (map (\<lambda>e. if exp_done e then 1 else 0) b) = Inr y"
  using assms by (auto simp: Q_targets_def Let_def example_world_def example_net_def)

lemma example_soft_update_defined:
  assumes "length l = length t"
  shows "\<exists>t'. soft_update (example_net l) (example_net t) ta = Inr (example_net t') \<and>
              length t' = length l"
  using assms by (simp add: soft_update_def parameters_def example_net_def blend_def)

lemma example_learn_defined:
  assumes "example_inv ag"
  shows "\<exists>ag'. learn (example_world u c h) ag (columns b) g = Inr ag' \<and> example_inv ag'"
proof -
  from assms obtain l t where l: "qnetwork_local ag = example_net l"
    and t: "qnetwork_target ag = example_net t" and len: "length l = length t" and ne: "l \<noteq> []"
    and cfg: "update_every ag \<noteq> 0" "0 \<le> batch_size ag"
    by (auto simp: example_inv_def)
  from ne len have "t \<noteq> []" by auto
  from example_Q_targets_defined [OF this, of u c h g b] obtain y where
    y: "Q_targets (example_world u c h) (example_net t) g
            (map exp_reward b) (map exp_next_state b) (map (\<lambda>e. if exp_done e then 1 else 0) b) = Inr y"
    by blast
  have gs: "gradient_step (example_world u c h) (optimizer ag) (example_net l)
              (map exp_state b) (map exp_action b) y = Inr (Suc (optimizer ag), params (example_net l))"
    by (simp add: example_world_def)
  have same: "(example_net l)\<lparr>params := params (example_net l)\<rparr> = example_net l" by simp
  from example_soft_update_defined [OF len, of "tau ag"] obtain t' where
    t': "soft_update (example_net l) (example_net t) (tau ag) = Inr (example_net t')"
    and len': "length t' = length l" by blast
  have "learn (example_world u c h) ag (columns b) g =
          Inr (ag\<lparr>optimizer := Suc (optimizer ag), qnetwork_local := example_net l,
                  qnetwork_target := example_net t',
                  learn_calls := Suc (learn_calls ag)\<rparr>)"
    by (simp add: learn_def columns_def l t y gs same t' Let_def)
  moreover have "example_inv (ag\<lparr>optimizer := Suc (optimizer ag), qnetwork_local := example_net l,
                  qnetwork_target := example_net t',
                  learn_calls := Suc (learn_calls ag)\<rparr>)"
    unfolding example_inv_def using len' ne cfg
    by (intro conjI exI [of _ l] exI [of _ t']) simp_all
  ultimately show ?thesis by blast
qed

lemma example_step_defined:
  assumes "example_inv ag"
  shows "\<exists>ag'. step (example_world u c h) ag s a r s' d = Inr ag' \<and> example_inv ag'"
proof -
  from assms have cfg: "update_every ag \<noteq> 0" "0 \<le> batch_size ag"
    by (auto simp: example_inv_def)
  define ag2 where "ag2 = ag\<lparr>memory := memory_add (buffer_size ag) (memory ag)
                       \<lparr>exp_state = s, exp_action = a, exp_reward = r,
                        exp_next_state = s', exp_done = d\<rparr>,
                    t_step := (t_step ag + 1) mod update_every ag\<rparr>"
  have inv2: "example_inv (ag2\<lparr>rng := g'\<rparr>)" "example_inv ag2" for g'
    using assms by (auto simp: example_inv_def ag2_def)
  show ?thesis
  proof (cases "t_step ag2 = 0 \<and> int (length (memory ag2)) > batch_size ag")
    case True
    then have ms: "memory_sample (example_world u c h) (memory ag2) (batch_size ag) (rng ag)
        = Inr (columns (take (nat (batch_size ag)) (memory ag2)), rng ag)"
      using cfg by (simp add: memory_sample_def example_world_def)
    from example_learn_defined [OF inv2(1), of u c h "rng ag" "take (nat (batch_size ag)) (memory ag2)" "gamma ag"]
    obtain ag' where "learn (example_world u c h) (ag2\<lparr>rng := rng ag\<rparr>)
        (columns (take (nat (batch_size ag)) (memory ag2))) (gamma ag) = Inr ag'" "example_inv ag'"
      by blast
    with True ms show ?thesis
      unfolding step_unfold [OF cfg(1)] ag2_def [symmetric] Let_def by simp
  next
    case False
    with inv2(2) show ?thesis
      unfolding step_unfold [OF cfg(1)] ag2_def [symmetric] Let_def by auto
  qed
qed

lemma example_feed_defined:
  assumes "example_inv ag"
  shows "\<exists>ag'. feed (example_world u c h) ag xs = Inr ag' \<and> example_inv ag'"
  using assms
proof (induction xs arbitrary: ag)
  case Nil
  then show ?case by simp
next
  case (Cons x xs)
  from example_step_defined [OF Cons.prems, of u c h "exp_state x" "exp_action x" "exp_reward x"
      "exp_next_state x" "exp_done x"]
  obtain ag1 where "step (example_world u c h) ag (exp_state x) (exp_action x) (exp_reward x)
      (exp_next_state x) (exp_done x) = Inr ag1" "example_inv ag1" by blast
  with Cons.IH [OF this(2)] show ?case by simp
qed

lemma example_agent_inv: "l \<noteq> [] \<Longrightarrow> length l = length t \<Longrightarrow> example_inv (example_agent l t)"
  by (auto simp: example_inv_def example_agent_def init_def)

lemma example_agent_cadence:
  "cadence_of (example_agent l t) = (0, 0, 0)" "buffer_size (example_agent l t) = 100"
  "batch_size (example_agent l t) = 8" "update_every (example_agent l t) = 4"
  by (simp_all add: cadence_of_def example_agent_def init_def)

theorem step_stores_counts_learns_witness:
  "0 < update_every (example_agent [1, 3] [1, 3]) \<and>
   0 < buffer_size (example_agent [1, 3] [1, 3]) \<and>
   step (example_world (1/2) 0 3) (example_agent [1, 3] [1, 3]) [0, 0, 0, 0] 0 1 [0, 0, 0, 0] False
     = Inr ((example_agent [1, 3] [1, 3])\<lparr>memory := [example_transition], t_step := 1\<rparr>) \<and>
   last [example_transition] = example_transition \<and> (0::int) \<le> 1 \<and> (1::int) < 4"
proof -
  let ?ag = "example_agent [1, 3] [1, 3]"
  have h: "0 < update_every ?ag" "0 < buffer_size ?ag"
    by (simp_all add: example_agent_def init_def)
  have m: "memory_add (buffer_size ?ag) (memory ?ag)
             \<lparr>exp_state = [0, 0, 0, 0], exp_action = 0, exp_reward = 1,
              exp_next_state = [0, 0, 0, 0], exp_done = False\<rparr> = [example_transition]"
    "(t_step ?ag + 1) mod update_every ?ag = 1" "batch_size ?ag = 8"
    by (simp_all add: example_agent_def init_def memory_add_def deque_append_def
          example_transition_def)
  note th = step_stores_counts_learns [OF h, of "[0, 0, 0, 0]" 0 1 "[0, 0, 0, 0]" False
      "example_world (1/2) 0 3", unfolded Let_def m]
  from th [THEN conjunct2, THEN conjunct2, THEN conjunct2, THEN conjunct1]
  have "step (example_world (1/2) 0 3) ?ag [0, 0, 0, 0] 0 1 [0, 0, 0, 0] False
     = Inr (?ag\<lparr>memory := [example_transition], t_step := 1\<rparr>)"
    by simp
  with h show ?thesis by simp
qed

section \<open>The end-to-end scenario\<close>

text \<open>
  C5, as the code has it. An agent constructed with \<open>state_size = 4\<close>, \<open>action_size = 2\<close>,
  \<open>buffer_size = 100\<close>, \<open>batch_size = 8\<close>, \<open>update_every = 4\<close> that has been fed any 50
  transitions holds 50 transitions and has called \<open>learn\<close> 10 times: the counter wraps at
  the calls 4, 8, ..., 48, and at the calls 4 and 8 the memory holds 4 and 8 transitions,
  which is not more than \<open>batch_size\<close>.
\<close>

theorem feed_50_learns_10:
  assumes "feed w (init 4 2 100 8 gamma' tau' lr' 4 path local0 target0 opt0 g0 files0) xs = Inr ag'"
    and "length xs = 50"
  shows "length (memory ag') = 50 \<and> learn_calls ag' = 10 \<and> t_step ag' = 2"
proof -
  let ?ag = "init 4 2 100 8 gamma' tau' lr' 4 path local0 target0 opt0 g0 files0"
  have "cadence_of ?ag = (0, 0, 0)" "buffer_size ?ag = 100" "batch_size ?ag = 8"
    "update_every ?ag = 4"
    by (simp_all add: cadence_of_def init_def)
  with feed_cadence_of [OF assms(1)] assms(2) cadence_50
  have "cadence_of ag' = (2, 50, 10)" by simp
  then show ?thesis by (simp add: cadence_of_def)
qed

theorem feed_50_learns_10_witness:
  "\<exists>ag'. feed (example_world (1/2) 0 3) (example_agent [1, 3] [1, 3])
            (replicate 50 example_transition) = Inr ag' \<and>
         length (replicate 50 example_transition) = 50 \<and>
         length (memory ag') = 50 \<and> learn_calls ag' = 10 \<and> t_step ag' = 2"
proof -
  have "example_inv (example_agent [1, 3] [1, 3])" by (simp add: example_agent_inv)
  from example_feed_defined [OF this, of "1/2" 0 3 "replicate 50 example_transition"]
  obtain ag' where f: "feed (example_world (1/2) 0 3) (example_agent [1, 3] [1, 3])
            (replicate 50 example_transition) = Inr ag'" by blast
  have l: "length (replicate 50 example_transition) = 50" by simp
  from feed_50_learns_10 [OF f [unfolded example_agent_def] l] f l show ?thesis by blast
qed

text \<open>
  The claim's count of \<open>floor(50/4) = 12\<close> calls of \<open>learn\<close> fails on 50 transitions with
  reward 1 and done false: the run returns, and its count is 10.
\<close>

theorem feed_50_not_12:
  "map_sum id learn_calls
     (feed (example_world (1/2) 0 3) (example_agent [1, 3] [1, 3]) (replicate 50 example_transition))
     = Inr 10 \<and>
   map_sum id learn_calls
     (feed (example_world (1/2) 0 3) (example_agent [1, 3] [1, 3]) (replicate 50 example_transition))
     \<noteq> Inr (50 div 4)"
proof -
  have "example_inv (example_agent [1, 3] [1, 3])" by (simp add: example_agent_inv)
  from example_feed_defined [OF this, of "1/2" 0 3 "replicate 50 example_transition"]
  obtain ag' where f: "feed (example_world (1/2) 0 3) (example_agent [1, 3] [1, 3])
            (replicate 50 example_transition) = Inr ag'" by blast
  from feed_cadence_of [OF f] example_agent_cadence [of "[1, 3]" "[1, 3]"] cadence_50
  have "cadence_of ag' = (2, 50, 10)" by simp
  then have "learn_calls ag' = 10" by (simp add: cadence_of_def)
  with f show ?thesis by simp
qed

section \<open>The checkpoint\<close>

lemma load_state_dict_Inr:
  assumes "load_state_dict net sd = Inr net'"
  shows "training net' = training net \<and> shapes net' = shapes net \<and>
         map fst (params net') = map fst (params net) \<and>
         (\<forall>(name, t) \<in> set (params net'). map_of sd name = Some (shapes net name, t))"
proof -
  from assms have keys: "set (map fst sd) = set (map fst (params net))"
    and ok: "\<not> (\<exists>(name, t) \<in> set (params net).
                 \<exists>sh t'. map_of sd name = Some (sh, t') \<and>
                         (sh \<noteq> shapes net name \<or> length t' \<noteq> length t))"
    and net': "net' = net\<lparr>params :=
                       map (\<lambda>(name, t).
                              (name, case map_of sd name of None \<Rightarrow> t | Some (sh, t') \<Rightarrow> t'))
                         (params net)\<rparr>"
    by (auto simp: load_state_dict_def split: if_splits)
  have stored: "\<exists>t'. map_of sd name = Some (shapes net name, t')"
    if "(name, t) \<in> set (params net)" for name t
  proof -
    from that have "name \<in> set (map fst (params net))" by force
    with keys have "name \<in> fst ` set sd" by simp
    then obtain sh t' where m: "map_of sd name = Some (sh, t')"
      by (cases "map_of sd name") (auto simp: map_of_eq_None_iff)
    with ok that have "sh = shapes net name" by blast
    with m show ?thesis by blast
  qed
  have "\<forall>(name, t) \<in> set (params net'). map_of sd name = Some (shapes net name, t)"
    unfolding net' using stored by (fastforce split: option.splits)
  moreover have "map fst (params net') = map fst (params net)"
    unfolding net' by (simp add: comp_def case_prod_unfold)
  ultimately show ?thesis unfolding net' by simp
qed

lemma load_state_dict_mismatch:
  assumes "\<exists>(name, t) \<in> set (params net).
             \<exists>sh t'. map_of sd name = Some (sh, t') \<and>
                     (sh \<noteq> shapes net name \<or> length t' \<noteq> length t)"
  shows "\<exists>e. load_state_dict net sd = Inl e"
  using assms unfolding load_state_dict_def by (simp only: if_True split: if_splits) blast

lemma load_state_dict_defined:
  assumes "set (map fst sd) = set (map fst (params net))"
    and "\<forall>(name, t) \<in> set (params net).
           \<forall>sh t'. map_of sd name = Some (sh, t') \<longrightarrow> sh = shapes net name \<and> length t' = length t"
  shows "\<exists>net'. load_state_dict net sd = Inr net'"
proof -
  from assms(2) have "\<not> (\<exists>(name, t) \<in> set (params net).
                 \<exists>sh t'. map_of sd name = Some (sh, t') \<and>
                         (sh \<noteq> shapes net name \<or> length t' \<noteq> length t))"
    by fastforce
  with assms(1) show ?thesis unfolding load_state_dict_def by simp
qed

text \<open>
  C8. \<open>save\<close> changes nothing but the file at the checkpoint path, which then holds exactly
  the parameters of the local network (each with its name, shape and entries), whatever the
  path held before; every other path keeps its content. \<open>load\<close> raises when the path holds
  nothing, and when a stored tensor and the parameter of its name differ in shape or in
  size. When the stored names are the parameter names and every stored tensor has the shape
  and size of its parameter, \<open>load\<close> returns. Whenever it returns, the agent differs from the
  one before at most in the local network, whose mode, shapes and parameter names stay and
  whose entries are the stored ones: the target network and the optimizer are unchanged.
\<close>

theorem save_load_checkpoint:
  "save ag = ag\<lparr>files := (files ag)(checkpoint_file ag \<mapsto> state_dict_of (qnetwork_local ag))\<rparr> \<and>
   files (save ag) (checkpoint_file ag) = Some (state_dict_of (qnetwork_local ag)) \<and>
   state_dict_of (qnetwork_local ag)
     = map (\<lambda>(name, t). (name, shapes (qnetwork_local ag) name, t)) (params (qnetwork_local ag)) \<and>
   (\<forall>p. p \<noteq> checkpoint_file ag \<longrightarrow> files (save ag) p = files ag p) \<and>
   (files ag (checkpoint_file ag) = None \<longrightarrow> load ag = Inl FileNotFoundError) \<and>
   (\<forall>sd. files ag (checkpoint_file ag) = Some sd \<and>
         (\<exists>(name, t) \<in> set (params (qnetwork_local ag)).
            \<exists>sh t'. map_of sd name = Some (sh, t') \<and>
                    (sh \<noteq> shapes (qnetwork_local ag) name \<or> length t' \<noteq> length t))
         \<longrightarrow> (\<exists>e. load ag = Inl e)) \<and>
   (\<forall>sd. files ag (checkpoint_file ag) = Some sd \<and>
         set (map fst sd) = set (map fst (params (qnetwork_local ag))) \<and>
         (\<forall>(name, t) \<in> set (params (qnetwork_local ag)).
            \<forall>sh t'. map_of sd name = Some (sh, t') \<longrightarrow>
                    sh = shapes (qnetwork_local ag) name \<and> length t' = length t)
         \<longrightarrow> (\<exists>ag'. load ag = Inr ag')) \<and>
   (\<forall>ag'. load ag = Inr ag' \<longrightarrow>
      ag' = ag\<lparr>qnetwork_local := qnetwork_local ag'\<rparr> \<and>
      qnetwork_target ag' = qnetwork_target ag \<and>
      optimizer ag' = optimizer ag \<and>
      training (qnetwork_local ag') = training (qnetwork_local ag) \<and>
      shapes (qnetwork_local ag') = shapes (qnetwork_local ag) \<and>
      map fst (params (qnetwork_local ag')) = map fst (params (qnetwork_local ag)) \<and>
      (\<exists>sd. files ag (checkpoint_file ag) = Some sd \<and>
            (\<forall>(name, t) \<in> set (params (qnetwork_local ag')).
               map_of sd name = Some (shapes (qnetwork_local ag) name, t))))"
proof (intro conjI allI impI)
  show "save ag = ag\<lparr>files := (files ag)(checkpoint_file ag \<mapsto> state_dict_of (qnetwork_local ag))\<rparr>"
    by (simp add: save_def)
  show "files (save ag) (checkpoint_file ag) = Some (state_dict_of (qnetwork_local ag))"
    by (simp add: save_def)
  show "state_dict_of (qnetwork_local ag)
     = map (\<lambda>(name, t). (name, shapes (qnetwork_local ag) name, t)) (params (qnetwork_local ag))"
    by (simp add: state_dict_of_def)
  show "files (save ag) p = files ag p" if "p \<noteq> checkpoint_file ag" for p
    using that by (simp add: save_def)
  show "load ag = Inl FileNotFoundError" if "files ag (checkpoint_file ag) = None"
    using that by (simp add: load_def)
  show "\<exists>e. load ag = Inl e"
    if "files ag (checkpoint_file ag) = Some sd \<and>
         (\<exists>(name, t) \<in> set (params (qnetwork_local ag)).
            \<exists>sh t'. map_of sd name = Some (sh, t') \<and>
                    (sh \<noteq> shapes (qnetwork_local ag) name \<or> length t' \<noteq> length t))" for sd
  proof -
    from that load_state_dict_mismatch [of "qnetwork_local ag" sd]
    obtain e where "load_state_dict (qnetwork_local ag) sd = Inl e" by blast
    with that show ?thesis by (simp add: load_def)
  qed
  show "\<exists>ag'. load ag = Inr ag'"
    if "files ag (checkpoint_file ag) = Some sd \<and>
         set (map fst sd) = set (map fst (params (qnetwork_local ag))) \<and>
         (\<forall>(name, t) \<in> set (params (qnetwork_local ag)).
            \<forall>sh t'. map_of sd name = Some (sh, t') \<longrightarrow>
                    sh = shapes (qnetwork_local ag) name \<and> length t' = length t)" for sd
  proof -
    from that load_state_dict_defined [of sd "qnetwork_local ag"]
    obtain net' where "load_state_dict (qnetwork_local ag) sd = Inr net'" by blast
    with that show ?thesis by (simp add: load_def)
  qed
  fix ag' assume l: "load ag = Inr ag'"
  then obtain sd net where sd: "files ag (checkpoint_file ag) = Some sd"
    and net: "load_state_dict (qnetwork_local ag) sd = Inr net"
    and ag': "ag' = ag\<lparr>qnetwork_local := net\<rparr>"
    by (auto simp: load_def split: option.splits sum.splits)
  note f = load_state_dict_Inr [OF net]
  show "ag' = ag\<lparr>qnetwork_local := qnetwork_local ag'\<rparr>" using ag' by simp
  show "qnetwork_target ag' = qnetwork_target ag" using ag' by simp
  show "optimizer ag' = optimizer ag" using ag' by simp
  show "training (qnetwork_local ag') = training (qnetwork_local ag)" using ag' f by simp
  show "shapes (qnetwork_local ag') = shapes (qnetwork_local ag)" using ag' f by simp
  show "map fst (params (qnetwork_local ag')) = map fst (params (qnetwork_local ag))"
    using ag' f by simp
  show "\<exists>sd. files ag (checkpoint_file ag) = Some sd \<and>
            (\<forall>(name, t) \<in> set (params (qnetwork_local ag')).
               map_of sd name = Some (shapes (qnetwork_local ag) name, t))"
    using ag' f sd by simp
qed

text \<open>Loading what was just saved gives the network back, when its parameter names differ.\<close>

lemma load_after_save:
  assumes "distinct (map fst (params (qnetwork_local ag)))"
  shows "load (save ag) = Inr (save ag)"
proof -
  let ?net = "qnetwork_local ag"
  let ?ps = "params ?net"
  let ?sd = "state_dict_of ?net"
  have keys: "map fst ?sd = map fst ?ps"
    by (simp add: state_dict_of_def comp_def case_prod_unfold)
  then have d: "distinct (map fst ?sd)" using assms by simp
  have m: "map_of ?sd name = Some (shapes ?net name, t)" if "(name, t) \<in> set ?ps" for name t
  proof -
    from that have "(name, shapes ?net name, t) \<in> set ?sd"
      by (force simp: state_dict_of_def)
    with d show ?thesis by simp
  qed
  have 1: "\<not> (\<exists>(name, t) \<in> set ?ps. \<exists>sh t'. map_of ?sd name = Some (sh, t') \<and>
                 (sh \<noteq> shapes ?net name \<or> length t' \<noteq> length t))"
    using m by auto
  have 2: "map (\<lambda>(name, t). (name, case map_of ?sd name of None \<Rightarrow> t | Some (sh, t') \<Rightarrow> t')) ?ps
      = ?ps"
    by (rule map_idI) (auto simp: m)
  have "load_state_dict ?net ?sd = Inr ?net"
    unfolding load_state_dict_def using 1 2 keys by simp
  then show ?thesis by (simp add: load_def save_def)
qed

theorem save_load_checkpoint_witness:
  "files (example_agent [1, 3] [0, 0]) (checkpoint_file (example_agent [1, 3] [0, 0])) = None \<and>
   load (example_agent [1, 3] [0, 0]) = Inl FileNotFoundError \<and>
   files (save (example_agent [1, 3] [0, 0])) ''checkpoint.pth''
     = Some [(''fc1.weight'', [2], [1, 3])] \<and>
   load (save (example_agent [1, 3] [0, 0])) = Inr (save (example_agent [1, 3] [0, 0])) \<and>
   load ((example_agent [1, 3] [0, 0])
           \<lparr>files := [''checkpoint.pth'' \<mapsto> [(''fc1.weight'', [2], [7, 8])]]\<rparr>)
     = Inr ((example_agent [1, 3] [0, 0])
              \<lparr>files := [''checkpoint.pth'' \<mapsto> [(''fc1.weight'', [2], [7, 8])]],
               qnetwork_local := example_net [7, 8]\<rparr>) \<and>
   qnetwork_target ((example_agent [1, 3] [0, 0])
              \<lparr>files := [''checkpoint.pth'' \<mapsto> [(''fc1.weight'', [2], [7, 8])]],
               qnetwork_local := example_net [7, 8]\<rparr>) = example_net [0, 0] \<and>
   optimizer ((example_agent [1, 3] [0, 0])
              \<lparr>files := [''checkpoint.pth'' \<mapsto> [(''fc1.weight'', [2], [7, 8])]],
               qnetwork_local := example_net [7, 8]\<rparr>) = 0 \<and>
   load ((example_agent [1, 3] [0, 0])
           \<lparr>files := [''checkpoint.pth'' \<mapsto> [(''fc1.weight'', [1, 2], [7, 8])]]\<rparr>)
     = Inl ShapeError \<and>
   load ((example_agent [1, 3] [0, 0])
           \<lparr>files := [''checkpoint.pth'' \<mapsto> [(''fc1.weight'', [1], [7])]]\<rparr>)
     = Inl ShapeError"
proof -
  let ?A = "example_agent [1, 3] [0, 0]"
  let ?B = "?A\<lparr>files := [''checkpoint.pth'' \<mapsto> [(''fc1.weight'', [2], [7, 8])]]\<rparr>"
  let ?C = "?A\<lparr>files := [''checkpoint.pth'' \<mapsto> [(''fc1.weight'', [1, 2], [7, 8])]]\<rparr>"
  let ?D = "?A\<lparr>files := [''checkpoint.pth'' \<mapsto> [(''fc1.weight'', [1], [7])]]\<rparr>"
  have none: "files ?A (checkpoint_file ?A) = None"
    by (simp add: example_agent_def init_def)
  have path: "checkpoint_file ?A = ''checkpoint.pth''"
    and loc: "params (qnetwork_local ?A) = [(''fc1.weight'', [1, 3])]"
    and sd: "state_dict_of (qnetwork_local ?A) = [(''fc1.weight'', [2], [1, 3])]"
    and tgt: "qnetwork_target ?A = example_net [0, 0]" and opt: "optimizer ?A = 0"
    by (simp_all add: example_agent_def init_def example_net_def state_dict_of_def)
  from save_load_checkpoint [of ?A] none have 1: "load ?A = Inl FileNotFoundError" by blast
  from save_load_checkpoint [of ?A] path sd
  have 2: "files (save ?A) ''checkpoint.pth'' = Some [(''fc1.weight'', [2], [1, 3])]" by metis
  have "distinct (map fst (params (qnetwork_local ?A)))" by (simp add: loc)
  then have 3: "load (save ?A) = Inr (save ?A)" by (rule load_after_save)
  have valid: "files ?B (checkpoint_file ?B) = Some [(''fc1.weight'', [2], [7, 8])] \<and>
         set (map fst [(''fc1.weight'', [2::nat], [7, 8::real])])
           = set (map fst (params (qnetwork_local ?B))) \<and>
         (\<forall>(name, t) \<in> set (params (qnetwork_local ?B)).
            \<forall>sh t'. map_of [(''fc1.weight'', [2], [7, 8])] name = Some (sh, t') \<longrightarrow>
                    sh = shapes (qnetwork_local ?B) name \<and> length t' = length t)"
    by (simp add: example_agent_def init_def example_net_def)
  from save_load_checkpoint [of ?B] valid obtain ag' where r: "load ?B = Inr ag'" by blast
  have "load ?B = Inr (?B\<lparr>qnetwork_local := example_net [7, 8]\<rparr>)"
    by (simp add: load_def load_state_dict_def example_agent_def init_def example_net_def)
  with r have 4: "load ?B = Inr (?B\<lparr>qnetwork_local := example_net [7, 8]\<rparr>)" by simp
  have 5: "qnetwork_target (?B\<lparr>qnetwork_local := example_net [7, 8]\<rparr>) = example_net [0, 0]"
    "optimizer (?B\<lparr>qnetwork_local := example_net [7, 8]\<rparr>) = 0"
    using tgt opt by simp_all
  have 6: "load ?C = Inl ShapeError" "load ?D = Inl ShapeError"
    by (simp_all add: load_def load_state_dict_def example_agent_def init_def example_net_def)
  from none 1 2 3 4 5 6 show ?thesis by simp
qed

section \<open>The unbounded loop of \<open>test\<close>\<close>

lemma test_steps_body:
  "test_steps w ag env s score =
     (case test_body w (ag, env, s, score) of
        Inl e \<Rightarrow> Some (Inl e)
      | Inr (d, (ag1, env1, s1, score1)) \<Rightarrow>
          if d then Some (Inr (ag1, env1, score1)) else test_steps w ag1 env1 s1 score1)"
  by (subst test_steps.simps) (simp add: test_body_def split: sum.splits prod.splits)

lemma test_iter_ends:
  "test_iter w n (ag, env, s, score) = Finished (ag', env', s', score')
     \<Longrightarrow> test_steps w ag env s score = Some (Inr (ag', env', score'))"
  "test_iter w n (ag, env, s, score) = Raised e
     \<Longrightarrow> test_steps w ag env s score = Some (Inl e)"
proof (induction n arbitrary: ag env s score)
  case 0
  { case 1 then show ?case by simp }
  { case 2 then show ?case by simp }
next
  case (Suc n)
  { case 1
    then show ?case
      by (subst test_steps_body) (auto split: sum.splits prod.splits if_splits dest: Suc.IH(1)) }
  { case 2
    then show ?case
      by (subst test_steps_body) (auto split: sum.splits prod.splits if_splits dest: Suc.IH(2)) }
qed

lemma test_steps_Some:
  assumes "test_steps w ag env s score = Some r"
  shows "\<exists>n. case r of
               Inl e \<Rightarrow> test_iter w n (ag, env, s, score) = Raised e
             | Inr (ag', env', score') \<Rightarrow>
                 (\<exists>s'. test_iter w n (ag, env, s, score) = Finished (ag', env', s', score'))"
proof (rule test_steps.raw_induct
    [where P = "\<lambda>w ag env s score r. \<exists>n. case r of
               Inl e \<Rightarrow> test_iter w n (ag, env, s, score) = Raised e
             | Inr (ag', env', score') \<Rightarrow>
                 (\<exists>s'. test_iter w n (ag, env, s, score) = Finished (ag', env', s', score'))",
     OF _ assms], goal_cases)
  case (1 test_steps' w ag env s score r)
  show ?case
  proof (cases "test_body w (ag, env, s, score)")
    case (Inl e)
    with 1(2) have "r = Inl e"
      by (auto simp: test_body_def split: sum.splits prod.splits)
    with Inl have "case r of
               Inl e \<Rightarrow> test_iter w (Suc 0) (ag, env, s, score) = Raised e
             | Inr (ag', env', score') \<Rightarrow>
                 (\<exists>s'. test_iter w (Suc 0) (ag, env, s, score) = Finished (ag', env', s', score'))"
      by simp
    then show ?thesis ..
  next
    case (Inr p)
    then obtain d ag1 env1 s1 score1 where
      b: "test_body w (ag, env, s, score) = Inr (d, (ag1, env1, s1, score1))"
      by (cases p) auto
    show ?thesis
    proof (cases d)
      case True
      with b 1(2) have "r = Inr (ag1, env1, score1)"
        by (auto simp: test_body_def split: sum.splits prod.splits)
      with b True have "case r of
               Inl e \<Rightarrow> test_iter w (Suc 0) (ag, env, s, score) = Raised e
             | Inr (ag', env', score') \<Rightarrow>
                 (\<exists>s'. test_iter w (Suc 0) (ag, env, s, score) = Finished (ag', env', s', score'))"
        by simp
      then show ?thesis ..
    next
      case False
      with b 1(2) have "test_steps' w ag1 env1 s1 score1 = Some r"
        by (auto simp: test_body_def split: sum.splits prod.splits)
      from 1(1) [OF this] obtain n where
        n: "case r of
               Inl e \<Rightarrow> test_iter w n (ag1, env1, s1, score1) = Raised e
             | Inr (ag', env', score') \<Rightarrow>
                 (\<exists>s'. test_iter w n (ag1, env1, s1, score1) = Finished (ag', env', s', score'))"
        by blast
      with b False have "case r of
               Inl e \<Rightarrow> test_iter w (Suc n) (ag, env, s, score) = Raised e
             | Inr (ag', env', score') \<Rightarrow>
                 (\<exists>s'. test_iter w (Suc n) (ag, env, s, score) = Finished (ag', env', s', score'))"
        by (auto split: sum.splits prod.splits)
      then show ?thesis ..
    qed
  qed
qed

lemma test_steps_None_iff:
  "test_steps w ag env s score = None \<longleftrightarrow>
     (\<forall>n. \<exists>v. test_iter w n (ag, env, s, score) = Running v)"
proof
  assume none: "test_steps w ag env s score = None"
  show "\<forall>n. \<exists>v. test_iter w n (ag, env, s, score) = Running v"
  proof
    fix n
    show "\<exists>v. test_iter w n (ag, env, s, score) = Running v"
    proof (cases "test_iter w n (ag, env, s, score)")
      case (Running v)
      then show ?thesis by blast
    next
      case (Finished v)
      then obtain ag' env' s' score' where "v = (ag', env', s', score')" by (cases v) auto
      with Finished test_iter_ends(1) [of w n ag env s score ag' env' s' score'] none
      show ?thesis by simp
    next
      case (Raised e)
      with test_iter_ends(2) [of w n ag env s score e] none show ?thesis by simp
    qed
  qed
next
  assume run: "\<forall>n. \<exists>v. test_iter w n (ag, env, s, score) = Running v"
  show "test_steps w ag env s score = None"
  proof (rule ccontr)
    assume "test_steps w ag env s score \<noteq> None"
    then obtain r where "test_steps w ag env s score = Some r" by blast
    from test_steps_Some [OF this] obtain n where
      "case r of
               Inl e \<Rightarrow> test_iter w n (ag, env, s, score) = Raised e
             | Inr (ag', env', score') \<Rightarrow>
                 (\<exists>s'. test_iter w n (ag, env, s, score) = Finished (ag', env', s', score'))"
      by blast
    with run show False by (auto split: sum.splits prod.splits) (metis progress.distinct)+
  qed
qed

lemma test_first_episode_diverges:
  assumes "0 < num_episodes"
    and "test_steps w ag (snd (env_reset w False env)) (fst (fst (env_reset w False env))) 0 = None"
  shows "test w ag env num_episodes = None"
proof -
  from assms(1) obtain m where m: "nat num_episodes = Suc m"
    by (cases "nat num_episodes") auto
  obtain s r0 d0 env1 where r: "env_reset w False env = ((s, r0, d0), env1)"
    by (metis prod.exhaust)
  with assms(2) have "test_steps w ag env1 s 0 = None" by simp
  with r m show ?thesis by (simp add: test_def)
qed

text \<open>
  C10. The loop of one evaluation episode has no bound of its own. It never returns exactly
  when every number of iterations is reached with no iteration having seen \<open>done\<close> (and none
  having raised); it returns normally exactly when some iteration sees \<open>done\<close>. So when the
  simulator never reports \<open>done\<close> in the first episode, \<open>test\<close> with at least one episode
  never returns.
\<close>

theorem test_loop_unbounded:
  "(test_steps w ag env s score = None \<longleftrightarrow>
      (\<forall>n. \<exists>v. test_iter w n (ag, env, s, score) = Running v)) \<and>
   ((\<exists>r. test_steps w ag env s score = Some (Inr r)) \<longleftrightarrow>
      (\<exists>n v. test_iter w n (ag, env, s, score) = Finished v)) \<and>
   (0 < num_episodes \<and>
    (\<forall>n. \<exists>v. test_iter w n
              (ag, snd (env_reset w False env0), fst (fst (env_reset w False env0)), 0) = Running v)
    \<longrightarrow> test w ag env0 num_episodes = None)"
proof (intro conjI impI)
  show "test_steps w ag env s score = None \<longleftrightarrow>
      (\<forall>n. \<exists>v. test_iter w n (ag, env, s, score) = Running v)"
    by (rule test_steps_None_iff)
  show "(\<exists>r. test_steps w ag env s score = Some (Inr r)) \<longleftrightarrow>
      (\<exists>n v. test_iter w n (ag, env, s, score) = Finished v)"
  proof
    assume "\<exists>r. test_steps w ag env s score = Some (Inr r)"
    then obtain r where "test_steps w ag env s score = Some (Inr r)" by blast
    from test_steps_Some [OF this] obtain n where
      "case r of (ag', env', score') \<Rightarrow>
         (\<exists>s'. test_iter w n (ag, env, s, score) = Finished (ag', env', s', score'))"
      by auto
    then obtain v where "test_iter w n (ag, env, s, score) = Finished v"
      by (cases r) auto
    then show "\<exists>n v. test_iter w n (ag, env, s, score) = Finished v" by blast
  next
    assume "\<exists>n v. test_iter w n (ag, env, s, score) = Finished v"
    then obtain n ag' env' s' score' where
      "test_iter w n (ag, env, s, score) = Finished (ag', env', s', score')"
      by (metis prod.exhaust)
    from test_iter_ends(1) [OF this] show "\<exists>r. test_steps w ag env s score = Some (Inr r)"
      by blast
  qed
  assume a: "0 < num_episodes \<and>
    (\<forall>n. \<exists>v. test_iter w n
              (ag, snd (env_reset w False env0), fst (fst (env_reset w False env0)), 0) = Running v)"
  then have "test_steps w ag (snd (env_reset w False env0)) (fst (fst (env_reset w False env0))) 0
      = None"
    by (simp add: test_steps_None_iff)
  with a show "test w ag env0 num_episodes = None"
    by (simp add: test_first_episode_diverges)
qed

subsection \<open>The example world under \<open>test\<close>\<close>

lemma example_act_greedy:
  assumes "example_inv ag" and "epsilon < u"
  shows "\<exists>a. act (example_world u c h) ag s epsilon = Inr (a, ag)"
proof -
  from assms(1) obtain l where l: "qnetwork_local ag = example_net l" and ne: "l \<noteq> []"
    by (auto simp: example_inv_def)
  have r: "rand_random (example_world u c h) (rng ag) = (u, rng ag)"
    by (simp add: example_world_def)
  have f: "forward (example_world u c h) ((qnetwork_local ag)\<lparr>training := False\<rparr>) s = l"
    by (simp add: example_world_def l example_net_def)
  from argmax_defined [OF ne] obtain i where i: "argmax l = Inr i" by blast
  have "(qnetwork_local ag)\<lparr>training := True\<rparr> = qnetwork_local ag"
    by (simp add: l example_net_def)
  then have same: "ag\<lparr>qnetwork_local := (qnetwork_local ag)\<lparr>training := True\<rparr>, rng := ()\<rparr> = ag"
    by simp
  from assms(2) r have "fst (rand_random (example_world u c h) (rng ag)) > epsilon" by simp
  from act_greedy [OF this, of s] show ?thesis
    by (simp add: f i r same)
qed

lemma example_test_body:
  assumes "example_inv ag" and "0 < u"
  shows "test_body (example_world u c h) (ag, e, s, score)
           = Inr (Suc e = h, (ag, Suc e, [0], score + 1))"
proof -
  from example_act_greedy [OF assms, of c h s] obtain a where
    "act (example_world u c h) ag s 0 = Inr (a, ag)" by blast
  then show ?thesis by (simp add: test_body_def example_world_def)
qed

lemma example_test_iter_never_done:
  assumes "example_inv ag" and "0 < u"
  shows "\<exists>v. test_iter (example_world u c 0) n (ag, e, s, score) = Running v"
proof (induction n arbitrary: e s score)
  case 0
  show ?case by simp
next
  case (Suc n)
  from Suc [of "Suc e" "[0]" "score + 1"] example_test_body [OF assms, of c 0 e s score]
  show ?case by simp
qed

theorem test_loop_unbounded_witness:
  "(0::int) < 10 \<and>
   test (example_world (1/2) 0 0) (example_agent [1, 3] [1, 3]) 0 10 = None \<and>
   test_steps (example_world (1/2) 0 0) (example_agent [1, 3] [1, 3]) 0 [0] 0 = None \<and>
   test_iter (example_world (1/2) 0 3) 3 (example_agent [1, 3] [1, 3], 0, [0], 0)
     = Finished (example_agent [1, 3] [1, 3], 3, [0], 3) \<and>
   (\<exists>r. test_steps (example_world (1/2) 0 3) (example_agent [1, 3] [1, 3]) 0 [0] 0 = Some (Inr r))"
proof -
  let ?A = "example_agent [1, 3] [1, 3]"
  have inv: "example_inv ?A" by (simp add: example_agent_inv)
  have u: "(0::real) < 1/2" by simp
  note never = example_test_iter_never_done [OF inv u]
  have reset: "env_reset (example_world (1/2) 0 0) False 0 = (([0], 0, False), 0)"
    by (simp add: example_world_def)
  have run: "\<forall>n. \<exists>v. test_iter (example_world (1/2) 0 0) n
       (?A, snd (env_reset (example_world (1/2) 0 0) False 0),
        fst (fst (env_reset (example_world (1/2) 0 0) False 0)), 0) = Running v"
    using never [of 0 _ 0 "[0]" 0] by (simp add: reset)
  have pos: "(0::int) < 10" by simp
  note th0 = test_loop_unbounded [of "example_world (1/2) 0 0" ?A 0 "[0]" 0 10 0]
  from th0 pos run have 1: "test (example_world (1/2) 0 0) ?A 0 10 = None" by blast
  from th0 never [of 0 _ 0 "[0]" 0]
  have 2: "test_steps (example_world (1/2) 0 0) ?A 0 [0] 0 = None" by blast
  have 3: "test_iter (example_world (1/2) 0 3) 3 (?A, 0, [0], 0) = Finished (?A, 3, [0], 3)"
    by (simp add: numeral_3_eq_3 example_test_body [OF inv u])
  note th3 = test_loop_unbounded [of "example_world (1/2) 0 3" ?A 0 "[0]" 0 10 0]
  from th3 3 have 4: "\<exists>r. test_steps (example_world (1/2) 0 3) ?A 0 [0] 0 = Some (Inr r)"
    by blast
  from pos 1 2 3 4 show ?thesis by blast
qed

section \<open>The training loop\<close>

subsection \<open>What \<open>act\<close> and \<open>step\<close> leave alone\<close>

lemma act_keeps:
  assumes "act w ag s epsilon = Inr (a, ag')"
  shows "files ag' = files ag" "console ag' = console ag"
    "checkpoint_file ag' = checkpoint_file ag" "action_size ag' = action_size ag"
  using assms
  by (auto simp: act_def Let_def split: prod.splits sum.splits if_splits)

lemma learn_keeps_io:
  assumes "learn w ag batch g = Inr ag'"
  shows "files ag' = files ag" "console ag' = console ag"
    "checkpoint_file ag' = checkpoint_file ag" "action_size ag' = action_size ag"
  using assms by (auto simp: learn_def Let_def split: prod.splits sum.splits)

lemma step_keeps:
  assumes "step w ag s a r s' d = Inr ag'"
  shows "files ag' = files ag \<and> console ag' = console ag \<and>
    checkpoint_file ag' = checkpoint_file ag \<and> action_size ag' = action_size ag"
proof -
  define ag2 where "ag2 = ag\<lparr>memory := memory_add (buffer_size ag) (memory ag)
                       \<lparr>exp_state = s, exp_action = a, exp_reward = r,
                        exp_next_state = s', exp_done = d\<rparr>,
                    t_step := (t_step ag + 1) mod update_every ag\<rparr>"
  show ?thesis
  proof (cases "t_step ag2 = 0 \<and> int (length (memory ag2)) > batch_size ag")
    case True
    with step_Inr_cases [OF assms] obtain batch g'
      where "learn w (ag2\<lparr>rng := g'\<rparr>) batch (gamma ag) = Inr ag'"
      unfolding ag2_def by auto
    from learn_keeps_io [OF this] show ?thesis by (simp add: ag2_def)
  next
    case False
    with step_Inr_cases [OF assms] have "ag' = ag2" unfolding ag2_def by auto
    then show ?thesis by (simp add: ag2_def)
  qed
qed

lemma train_steps_keeps:
  assumes "train_steps w n ag env s score epsilon = Inr (ag', env', score')"
  shows "files ag' = files ag \<and> console ag' = console ag \<and>
    checkpoint_file ag' = checkpoint_file ag"
  using assms
proof (induction n arbitrary: ag env s score)
  case 0
  then show ?case by simp
next
  case (Suc n)
  from Suc.prems obtain action ag1 where a: "act w ag s epsilon = Inr (action, ag1)"
    by (auto split: sum.splits)
  obtain next_state reward d env1 where
    e: "env_step w action env = ((next_state, reward, d), env1)"
    by (metis prod.exhaust)
  from Suc.prems a e obtain ag2 where
    st: "step w ag1 s action reward next_state d = Inr ag2"
    by (auto split: sum.splits)
  note k = act_keeps(1-3) [OF a] step_keeps [OF st]
  show ?case
  proof (cases d)
    case True
    with Suc.prems a e st have "ag' = ag2" by simp
    with k show ?thesis by simp
  next
    case False
    with Suc.prems a e st
    have "train_steps w n ag2 env1 next_state (score + reward) epsilon = Inr (ag', env', score')"
      by simp
    from Suc.IH [OF this] k show ?thesis by simp
  qed
qed

subsection \<open>The epsilon schedule\<close>

lemma decay_le: "c * x \<le> x" if "c \<le> 1" "0 \<le> x" for c x :: real
  using mult_right_mono [OF that] by simp

lemma eps_after_shift:
  "eps_after ee ed k (max ee (ed * e)) = eps_after ee ed (Suc k) e"
  by (induction k) simp_all

lemma eps_after_floor: "ee \<le> e \<Longrightarrow> ee \<le> eps_after ee ed k e"
  by (cases k) simp_all

lemma eps_after_mono:
  assumes "0 \<le> ee" "ee \<le> e" "ed \<le> 1"
  shows "eps_after ee ed (Suc k) e \<le> eps_after ee ed k e"
proof -
  have f: "ee \<le> eps_after ee ed k e" using assms(2) by (rule eps_after_floor)
  with assms(1) have "0 \<le> eps_after ee ed k e" by simp
  with assms(3) have "ed * eps_after ee ed k e \<le> eps_after ee ed k e"
    by (simp add: decay_le)
  with f show ?thesis by simp
qed

lemma eps_after_closed:
  assumes "0 \<le> ee" "ee \<le> e" "0 \<le> ed" "ed \<le> 1"
  shows "eps_after ee ed k e = max ee (ed ^ k * e)"
proof (induction k)
  case 0
  with assms(2) show ?case by simp
next
  case (Suc k)
  have "ed * ee \<le> ee" using assms(1,4) by (simp add: decay_le)
  then have m: "max ee (ed * ee) = ee" by simp
  have "eps_after ee ed (Suc k) e = max ee (ed * max ee (ed ^ k * e))"
    by (simp add: Suc)
  also have "\<dots> = max ee (max (ed * ee) (ed * (ed ^ k * e)))"
    using assms(3) by (simp add: max_mult_distrib_left)
  also have "\<dots> = max (max ee (ed * ee)) (ed ^ Suc k * e)"
    by (simp add: max.assoc mult.assoc)
  finally show ?case by (simp add: m)
qed

lemma train_episodes_eps:
  assumes "train_episodes w n i max_t ee ed ag env vars = Inr (ag', env', vars')"
  shows "\<exists>k \<le> n. length (scores vars') = length (scores vars) + k \<and>
            eps vars' = eps_after ee ed k (eps vars)"
  using assms
proof (induction n arbitrary: i ag env vars)
  case 0
  then show ?case by simp
next
  case (Suc n)
  obtain s r0 d0 env1 where r: "env_reset w True env = ((s, r0, d0), env1)"
    by (metis prod.exhaust)
  from Suc.prems r obtain ag1 env2 score where
    t: "train_steps w max_t ag env1 s 0 (eps vars) = Inr (ag1, env2, score)"
    by (auto split: sum.splits)
  define window where "window = deque_append 100 (scores_window vars) score"
  define vars1 where "vars1 = \<lparr> scores = scores vars @ [score],
                             moving_avgs = moving_avgs vars @ [mean window],
                             scores_window = window,
                             eps = max ee (ed * eps vars) \<rparr>"
  show ?case
  proof (cases "mean window \<ge> 13")
    case True
    with Suc.prems r t have "vars' = vars1"
      by (simp add: Let_def window_def vars1_def)
    then have "length (scores vars') = length (scores vars) + 1 \<and>
            eps vars' = eps_after ee ed 1 (eps vars)" by (simp add: vars1_def)
    then show ?thesis by (intro exI [of _ 1]) simp
  next
    case False
    with Suc.prems r t obtain ag3 where
      "train_episodes w n (i + 1) max_t ee ed ag3 env2 vars1 = Inr (ag', env', vars')"
      by (simp add: Let_def window_def vars1_def split: if_splits)
    from Suc.IH [OF this] obtain k where k: "k \<le> n"
      "length (scores vars') = length (scores vars1) + k"
      "eps vars' = eps_after ee ed k (eps vars1)" by blast
    have "eps vars' = eps_after ee ed (Suc k) (eps vars)"
      using k(3) eps_after_shift [of ee ed k "eps vars"] by (simp add: vars1_def)
    moreover have "length (scores vars') = length (scores vars) + Suc k"
      using k(2) by (simp add: vars1_def)
    ultimately show ?thesis using k(1) by (intro exI [of _ "Suc k"]) simp
  qed
qed

subsection \<open>Stopping at the solved episode\<close>

lemma deque_append_trailing:
  assumes "0 < k"
  shows "deque_append k (trailing k xs) x = trailing k (xs @ [x])"
proof (cases "length xs < k")
  case True
  then have "trailing k xs = xs" by (simp add: trailing_def)
  then show ?thesis by (simp add: deque_append_def trailing_def Let_def)
next
  case False
  then have len: "length (trailing k xs) = k" by (simp add: trailing_def)
  have "deque_append k (trailing k xs) x = drop 1 (trailing k xs @ [x])"
    using len by (simp add: deque_append_def Let_def)
  also have "trailing k xs @ [x] = drop (length xs - k) (xs @ [x])"
    by (simp add: trailing_def)
  also have "drop 1 (drop (length xs - k) (xs @ [x])) = drop (length (xs @ [x]) - k) (xs @ [x])"
    using False by (simp add: Suc_diff_le)
  finally show ?thesis by (simp add: trailing_def)
qed

lemma train_episodes_run:
  assumes "train_episodes w n i max_t ee ed ag env vars = Inr (ag', env', vars')"
    and "scores_window vars = trailing 100 (scores vars)"
  shows "\<exists>ss new. scores vars' = scores vars @ ss \<and> moving_avgs vars' = moving_avgs vars @ new \<and>
     length new = length ss \<and> length new \<le> n \<and>
     (\<forall>j < length new. new ! j = mean (trailing 100 (scores vars @ take (Suc j) ss))) \<and>
     (\<forall>j. Suc j < length new \<longrightarrow> new ! j < 13) \<and>
     checkpoint_file ag' = checkpoint_file ag \<and>
     (if new \<noteq> [] \<and> 13 \<le> last new
      then last (console ag') = Solved (i + int (length new) - 1 - 100) (last new) \<and>
           files ag' = (files ag)(checkpoint_file ag \<mapsto> state_dict_of (qnetwork_local ag'))
      else length new = n \<and> files ag' = files ag \<and>
           (\<forall>m a. Solved m a \<in> set (console ag') \<longrightarrow> Solved m a \<in> set (console ag)))"
  using assms
proof (induction n arbitrary: i ag env vars)
  case 0
  then have "vars' = vars" "ag' = ag" by simp_all
  then show ?case by (intro exI [of _ "[]"]) simp
next
  case (Suc n)
  obtain s r0 d0 env1 where r: "env_reset w True env = ((s, r0, d0), env1)"
    by (metis prod.exhaust)
  from Suc.prems(1) r obtain ag1 env2 score where
    t: "train_steps w max_t ag env1 s 0 (eps vars) = Inr (ag1, env2, score)"
    by (auto split: sum.splits)
  note io1 = train_steps_keeps [OF t]
  define window where "window = deque_append 100 (scores_window vars) score"
  define avg where "avg = mean window"
  define vars1 where "vars1 = \<lparr> scores = scores vars @ [score],
                             moving_avgs = moving_avgs vars @ [avg],
                             scores_window = window,
                             eps = max ee (ed * eps vars) \<rparr>"
  define ag2 where "ag2 = ag1\<lparr>console := console ag1 @ [Progress i (mean window)]\<rparr>"
  define ag3 where "ag3 = (if i mod 100 = 0
                          then ag2\<lparr>console := console ag2 @ [ProgressLine i avg]\<rparr>
                          else ag2)"
  have w: "window = trailing 100 (scores vars @ [score])"
    unfolding window_def Suc.prems(2) by (rule deque_append_trailing) simp
  have io3: "files ag3 = files ag" "checkpoint_file ag3 = checkpoint_file ag"
    "qnetwork_local ag3 = qnetwork_local ag1"
    "\<forall>m a. Solved m a \<in> set (console ag3) \<longrightarrow> Solved m a \<in> set (console ag)"
    using io1 by (auto simp: ag3_def ag2_def)
  have unfold: "train_episodes w (Suc n) i max_t ee ed ag env vars =
      (if avg \<ge> 13
       then Inr (save (ag3\<lparr>console := console ag3 @ [Solved (i - 100) avg]\<rparr>), env2, vars1)
       else train_episodes w n (i + 1) max_t ee ed ag3 env2 vars1)"
    using r t by (simp add: Let_def window_def avg_def vars1_def ag2_def ag3_def)
  show ?case
  proof (cases "avg \<ge> 13")
    case True
    with Suc.prems(1) unfold
    have res: "ag' = save (ag3\<lparr>console := console ag3 @ [Solved (i - 100) avg]\<rparr>)"
      "vars' = vars1" by simp_all
    have "scores vars' = scores vars @ [score] \<and> moving_avgs vars' = moving_avgs vars @ [avg] \<and>
     length [avg] = length [score] \<and> length [avg] \<le> Suc n \<and>
     (\<forall>j < length [avg]. [avg] ! j = mean (trailing 100 (scores vars @ take (Suc j) [score]))) \<and>
     (\<forall>j. Suc j < length [avg] \<longrightarrow> [avg] ! j < 13) \<and>
     checkpoint_file ag' = checkpoint_file ag \<and>
     (if [avg] \<noteq> [] \<and> 13 \<le> last [avg]
      then last (console ag') = Solved (i + int (length [avg]) - 1 - 100) (last [avg]) \<and>
           files ag' = (files ag)(checkpoint_file ag \<mapsto> state_dict_of (qnetwork_local ag'))
      else length [avg] = Suc n \<and> files ag' = files ag \<and>
           (\<forall>m a. Solved m a \<in> set (console ag') \<longrightarrow> Solved m a \<in> set (console ag)))"
      using True res io3 w by (simp add: vars1_def save_def avg_def)
    then show ?thesis by blast
  next
    case False
    with Suc.prems(1) unfold
    have rec: "train_episodes w n (i + 1) max_t ee ed ag3 env2 vars1 = Inr (ag', env', vars')"
      by simp
    have inv: "scores_window vars1 = trailing 100 (scores vars1)"
      by (simp add: vars1_def w)
    from Suc.IH [OF rec inv] obtain ss new where
      ih: "scores vars' = scores vars1 @ ss" "moving_avgs vars' = moving_avgs vars1 @ new"
        "length new = length ss" "length new \<le> n"
        "\<forall>j < length new. new ! j = mean (trailing 100 (scores vars1 @ take (Suc j) ss))"
        "\<forall>j. Suc j < length new \<longrightarrow> new ! j < 13"
        "checkpoint_file ag' = checkpoint_file ag3"
        "if new \<noteq> [] \<and> 13 \<le> last new
         then last (console ag') = Solved (i + 1 + int (length new) - 1 - 100) (last new) \<and>
           files ag' = (files ag3)(checkpoint_file ag3 \<mapsto> state_dict_of (qnetwork_local ag'))
         else length new = n \<and> files ag' = files ag3 \<and>
           (\<forall>m a. Solved m a \<in> set (console ag') \<longrightarrow> Solved m a \<in> set (console ag3))"
      by blast
    have 1: "scores vars' = scores vars @ (score # ss)"
      "moving_avgs vars' = moving_avgs vars @ (avg # new)"
      using ih(1,2) by (simp_all add: vars1_def)
    have 2: "length (avg # new) = length (score # ss)" "length (avg # new) \<le> Suc n"
      using ih(3,4) by simp_all
    have 3: "(avg # new) ! j = mean (trailing 100 (scores vars @ take (Suc j) (score # ss)))"
      if "j < length (avg # new)" for j
    proof (cases j)
      case 0
      then show ?thesis by (simp add: avg_def w)
    next
      case (Suc j')
      with that ih(5) show ?thesis by (simp add: vars1_def)
    qed
    have 4: "(avg # new) ! j < 13" if "Suc j < length (avg # new)" for j
    proof (cases j)
      case 0
      with False show ?thesis by simp
    next
      case (Suc j')
      with that ih(6) show ?thesis by simp
    qed
    have 5: "checkpoint_file ag' = checkpoint_file ag" using ih(7) io3(2) by simp
    have 6: "if avg # new \<noteq> [] \<and> 13 \<le> last (avg # new)
      then last (console ag') = Solved (i + int (length (avg # new)) - 1 - 100) (last (avg # new)) \<and>
           files ag' = (files ag)(checkpoint_file ag \<mapsto> state_dict_of (qnetwork_local ag'))
      else length (avg # new) = Suc n \<and> files ag' = files ag \<and>
           (\<forall>m a. Solved m a \<in> set (console ag') \<longrightarrow> Solved m a \<in> set (console ag))"
    proof (cases "new \<noteq> [] \<and> 13 \<le> last new")
      case True
      with ih(8) io3(1,2) show ?thesis by simp
    next
      case no: False
      with ih(8) have e: "length new = n" "files ag' = files ag3"
        "\<forall>m a. Solved m a \<in> set (console ag') \<longrightarrow> Solved m a \<in> set (console ag3)"
        by simp_all
      have "\<not> 13 \<le> last (avg # new)"
        using no False by (cases "new = []") simp_all
      with e io3(1,4) show ?thesis by simp
    qed
    from 1 2 3 4 5 6 show ?thesis by blast
  qed
qed

text \<open>
  C6. In a training run that returns, line 163 has been executed once for each episode run:
  the final \<open>eps\<close> is \<open>eps_start\<close> after as many updates \<open>eps \<leftarrow> max(eps_end, eps_decay * eps)\<close>
  as there are scores. For a floor \<open>0 \<le> eps_end \<le> eps_start\<close> and a decay factor in
  \<open>[0, 1]\<close> (the documented meaning of the parameters), the sequence of these values never
  increases, never goes below \<open>eps_end\<close>, and its \<open>k\<close>-th value is
  \<open>max(eps_end, eps_decay^k * eps_start)\<close>; so from 1.0 with decay 0.995 and floor 0.01 a
  run of 2000 episodes ends with \<open>max(0.01, 0.995^2000)\<close>.
\<close>

theorem train_epsilon_schedule:
  assumes "train_loop w ag env n_episodes max_t eps_start eps_end eps_decay = Inr (ag', env', vars')"
    and "0 \<le> eps_end" and "eps_end \<le> eps_start" and "0 \<le> eps_decay" and "eps_decay \<le> 1"
  shows "eps vars' = eps_after eps_end eps_decay (length (scores vars')) eps_start \<and>
     (\<forall>k. eps_after eps_end eps_decay (Suc k) eps_start \<le> eps_after eps_end eps_decay k eps_start \<and>
          eps_end \<le> eps_after eps_end eps_decay k eps_start \<and>
          eps_after eps_end eps_decay k eps_start = max eps_end (eps_decay ^ k * eps_start)) \<and>
     (eps_start = 1 \<and> eps_end = 1/100 \<and> eps_decay = 995/1000 \<and> length (scores vars') = 2000
        \<longrightarrow> eps vars' = max (1/100) ((995/1000) ^ 2000))"
proof -
  obtain info env0 where "env_reset w False env = (info, env0)" by (metis prod.exhaust)
  with assms(1) have "train_episodes w (nat n_episodes) 1 (nat max_t) eps_end eps_decay ag env0
            \<lparr> scores = [], moving_avgs = [], scores_window = [], eps = eps_start \<rparr>
          = Inr (ag', env', vars')"
    by (simp add: train_loop_def)
  from train_episodes_eps [OF this]
  have 1: "eps vars' = eps_after eps_end eps_decay (length (scores vars')) eps_start"
    by auto
  have 2: "eps_after eps_end eps_decay (Suc k) eps_start \<le> eps_after eps_end eps_decay k eps_start"
    for k using assms(2,3,5) by (rule eps_after_mono)
  have 3: "eps_end \<le> eps_after eps_end eps_decay k eps_start" for k
    using assms(3) by (rule eps_after_floor)
  have 4: "eps_after eps_end eps_decay k eps_start = max eps_end (eps_decay ^ k * eps_start)" for k
    using assms(2-5) by (rule eps_after_closed)
  have 5: "eps vars' = max (1/100) ((995/1000) ^ 2000)"
    if "eps_start = 1 \<and> eps_end = 1/100 \<and> eps_decay = 995/1000 \<and> length (scores vars') = 2000"
    using 1 4 [of 2000] that by simp
  from 1 2 3 4 5 show ?thesis by blast
qed

text \<open>
  C7. In a training run that returns, there is one moving average per episode run, each the
  mean of the last 100 scores up to its episode (of all of them when there are fewer), and
  every one but the last is below 13: no episode follows one whose average reached 13. If
  the last average is at least 13, the last line printed is the solved message with
  \<open>i_episode - 100\<close> for the number \<open>i_episode\<close> of that episode, and the checkpoint file
  holds the parameters the local network has at the end, where \<open>save\<close> was the last action;
  otherwise all \<open>n_episodes\<close> episodes were run, no file was written and no solved message
  printed.
\<close>

theorem train_stops_when_solved:
  assumes "train_loop w ag env n_episodes max_t eps_start eps_end eps_decay = Inr (ag', env', vars')"
  shows "length (moving_avgs vars') = length (scores vars') \<and>
     length (scores vars') \<le> nat n_episodes \<and>
     (\<forall>j < length (scores vars').
        moving_avgs vars' ! j = mean (trailing 100 (take (Suc j) (scores vars')))) \<and>
     (\<forall>j. Suc j < length (scores vars') \<longrightarrow> moving_avgs vars' ! j < 13) \<and>
     (if moving_avgs vars' \<noteq> [] \<and> 13 \<le> last (moving_avgs vars')
      then last (console ag')
             = Solved (int (length (scores vars')) - 100) (last (moving_avgs vars')) \<and>
           files ag' = (files ag)(checkpoint_file ag \<mapsto> state_dict_of (qnetwork_local ag'))
      else length (scores vars') = nat n_episodes \<and> files ag' = files ag \<and>
           (\<forall>m a. Solved m a \<in> set (console ag') \<longrightarrow> Solved m a \<in> set (console ag)))"
proof -
  obtain info env0 where "env_reset w False env = (info, env0)" by (metis prod.exhaust)
  with assms(1) have run: "train_episodes w (nat n_episodes) 1 (nat max_t) eps_end eps_decay ag env0
            \<lparr> scores = [], moving_avgs = [], scores_window = [], eps = eps_start \<rparr>
          = Inr (ag', env', vars')"
    by (simp add: train_loop_def)
  have "scores_window \<lparr> scores = [], moving_avgs = [], scores_window = [], eps = eps_start \<rparr>
      = trailing 100 (scores \<lparr> scores = [], moving_avgs = [], scores_window = [], eps = eps_start \<rparr>)"
    by (simp add: trailing_def)
  from train_episodes_run [OF run this] obtain ss new where
    r: "scores vars' = ss" "moving_avgs vars' = new" "length new = length ss"
      "length new \<le> nat n_episodes"
      "\<forall>j < length new. new ! j = mean (trailing 100 (take (Suc j) ss))"
      "\<forall>j. Suc j < length new \<longrightarrow> new ! j < 13"
      "if new \<noteq> [] \<and> 13 \<le> last new
       then last (console ag') = Solved (1 + int (length new) - 1 - 100) (last new) \<and>
           files ag' = (files ag)(checkpoint_file ag \<mapsto> state_dict_of (qnetwork_local ag'))
       else length new = nat n_episodes \<and> files ag' = files ag \<and>
           (\<forall>m a. Solved m a \<in> set (console ag') \<longrightarrow> Solved m a \<in> set (console ag))"
    by auto
  from r(7) have "if new \<noteq> [] \<and> 13 \<le> last new
       then last (console ag') = Solved (int (length ss) - 100) (last new) \<and>
           files ag' = (files ag)(checkpoint_file ag \<mapsto> state_dict_of (qnetwork_local ag'))
       else length ss = nat n_episodes \<and> files ag' = files ag \<and>
           (\<forall>m a. Solved m a \<in> set (console ag') \<longrightarrow> Solved m a \<in> set (console ag))"
    using r(3) by (simp split: if_splits)
  with r(1-6) show ?thesis by simp
qed

subsection \<open>The example world under \<open>train\<close>\<close>

lemma example_act_defined:
  assumes "example_inv ag" and "0 < action_size ag"
  shows "\<exists>a. act (example_world u c h) ag s epsilon = Inr (a, ag)"
proof (cases "epsilon < u")
  case True
  with assms(1) show ?thesis by (rule example_act_greedy)
next
  case False
  from assms(1) obtain l where l: "qnetwork_local ag = example_net l"
    by (auto simp: example_inv_def)
  have "(qnetwork_local ag)\<lparr>training := True\<rparr> = qnetwork_local ag"
    by (simp add: l example_net_def)
  then have same: "ag\<lparr>qnetwork_local := (qnetwork_local ag)\<lparr>training := True\<rparr>, rng := ()\<rparr> = ag"
    by simp
  from False assms(2) show ?thesis
    by (simp add: act_def Let_def example_world_def same)
qed

lemma example_train_steps:
  assumes "example_inv ag" and "0 < action_size ag"
  shows "\<exists>ag'. train_steps (example_world u c h) n ag e s score epsilon
           = Inr (ag', e + (if e < h \<and> h - e \<le> n then h - e else n),
                  score + real (if e < h \<and> h - e \<le> n then h - e else n)) \<and>
         example_inv ag' \<and> action_size ag' = action_size ag"
  using assms
proof (induction n arbitrary: ag e s score)
  case 0
  then show ?case by simp
next
  case (Suc n)
  let ?W = "example_world u c h"
  from example_act_defined [OF Suc.prems, of u c h s epsilon] obtain a where
    a: "act ?W ag s epsilon = Inr (a, ag)" by blast
  have e: "env_step ?W a e = (([0], 1, Suc e = h), Suc e)" by (simp add: example_world_def)
  from example_step_defined [OF Suc.prems(1), of u c h s a 1 "[0]" "Suc e = h"] obtain ag2 where
    st: "step ?W ag s a 1 [0] (Suc e = h) = Inr ag2" and inv2: "example_inv ag2" by blast
  from step_keeps [OF st] Suc.prems(2) have as2: "action_size ag2 = action_size ag"
    "0 < action_size ag2" by simp_all
  show ?case
  proof (cases "Suc e = h")
    case True
    with a e st have "train_steps ?W (Suc n) ag e s score epsilon = Inr (ag2, Suc e, score + 1)"
      by simp
    moreover from True have "(if e < h \<and> h - e \<le> Suc n then h - e else Suc n) = 1" by auto
    ultimately show ?thesis using inv2 as2 by simp
  next
    case False
    from Suc.IH [OF inv2 as2(2), of "Suc e" "[0]" "score + 1"] obtain ag' where
      ih: "train_steps ?W n ag2 (Suc e) [0] (score + 1) epsilon
           = Inr (ag', Suc e + (if Suc e < h \<and> h - Suc e \<le> n then h - Suc e else n),
                  score + 1 + real (if Suc e < h \<and> h - Suc e \<le> n then h - Suc e else n))"
      "example_inv ag'" "action_size ag' = action_size ag2" by blast
    have k: "(if e < h \<and> h - e \<le> Suc n then h - e else Suc n)
        = Suc (if Suc e < h \<and> h - Suc e \<le> n then h - Suc e else n)"
      using False by auto
    from a e st False ih(1)
    have "train_steps ?W (Suc n) ag e s score epsilon
           = Inr (ag', Suc e + (if Suc e < h \<and> h - Suc e \<le> n then h - Suc e else n),
                  score + 1 + real (if Suc e < h \<and> h - Suc e \<le> n then h - Suc e else n))"
      by simp
    then show ?thesis unfolding k using ih(2,3) as2(1) by simp
  qed
qed

lemma mean_constant:
  assumes "xs \<noteq> []" and "\<forall>x \<in> set xs. x = c"
  shows "mean xs = c"
proof -
  from assms(2) have "sum_list xs = real (length xs) * c"
    by (induction xs) (simp_all add: algebra_simps)
  with assms(1) show ?thesis by (simp add: mean_def)
qed

lemma deque_append_constant:
  assumes "\<forall>y \<in> set xs. y = c"
  shows "deque_append 100 xs c \<noteq> [] \<and> (\<forall>y \<in> set (deque_append 100 xs c). y = c)"
proof -
  have "set (deque_append 100 xs c) \<subseteq> set (xs @ [c])"
    unfolding deque_append_def Let_def by (rule set_drop_subset)
  with assms have "\<forall>y \<in> set (deque_append 100 xs c). y = c" by auto
  moreover have "length (deque_append 100 xs c) = min 100 (Suc (length xs))"
    by (rule length_deque_append)
  then have "deque_append 100 xs c \<noteq> []" by auto
  ultimately show ?thesis by simp
qed

text \<open>
  With episodes of \<open>k\<close> steps of reward 1 and \<open>k < 13\<close>, no average reaches 13 and every
  episode asked for is run.
\<close>

lemma example_train_episodes_unsolved:
  assumes "example_inv ag" and "0 < action_size ag"
    and "k = (if 0 < h \<and> h \<le> max_t then h else max_t)" and "k < 13"
    and "\<forall>x \<in> set (scores_window vars). x = real k"
  shows "\<exists>ag' env' vars'.
           train_episodes (example_world u c h) n i max_t ee ed ag env vars = Inr (ag', env', vars') \<and>
           length (scores vars') = length (scores vars) + n"
  using assms(1,2,5)
proof (induction n arbitrary: i ag env vars)
  case 0
  then show ?case by simp
next
  case (Suc n)
  let ?W = "example_world u c h"
  have r: "env_reset ?W True env = (([0], 0, False), 0)" by (simp add: example_world_def)
  from example_train_steps [OF Suc.prems(1,2), of u c h max_t 0 "[0]" 0 "eps vars"] assms(3)
  obtain ag1 where t: "train_steps ?W max_t ag 0 [0] 0 (eps vars) = Inr (ag1, k, real k)"
    and inv1: "example_inv ag1" "action_size ag1 = action_size ag"
    by auto
  define window where "window = deque_append 100 (scores_window vars) (real k)"
  from deque_append_constant [OF Suc.prems(3)] have wc: "window \<noteq> []" "\<forall>y \<in> set window. y = real k"
    by (simp_all add: window_def)
  then have m: "mean window = real k" by (rule mean_constant)
  with assms(4) have low: "\<not> 13 \<le> mean window" by simp
  define vars1 where "vars1 = \<lparr> scores = scores vars @ [real k],
                             moving_avgs = moving_avgs vars @ [mean window],
                             scores_window = window,
                             eps = max ee (ed * eps vars) \<rparr>"
  define ag3 where "ag3 = (if i mod 100 = 0
       then ag1\<lparr>console := console ag1 @ [Progress i (mean window), ProgressLine i (mean window)]\<rparr>
       else ag1\<lparr>console := console ag1 @ [Progress i (mean window)]\<rparr>)"
  have unfold: "train_episodes ?W (Suc n) i max_t ee ed ag env vars
      = train_episodes ?W n (i + 1) max_t ee ed ag3 k vars1"
    using r t low by (simp add: Let_def window_def [symmetric] vars1_def ag3_def)
  have inv3: "example_inv ag3" "0 < action_size ag3"
    using inv1 Suc.prems(2) by (auto simp: ag3_def example_inv_def)
  have w1: "\<forall>x \<in> set (scores_window vars1). x = real k" using wc by (simp add: vars1_def)
  from Suc.IH [OF inv3 w1, of "i + 1" k] obtain ag' env' vars' where
    "train_episodes ?W n (i + 1) max_t ee ed ag3 k vars1 = Inr (ag', env', vars')"
    "length (scores vars') = length (scores vars1) + n" by blast
  with unfold show ?case by (simp add: vars1_def)
qed

theorem train_epsilon_schedule_witness:
  "(0::real) \<le> 1/100 \<and> (1/100::real) \<le> 1 \<and> (0::real) \<le> 995/1000 \<and> (995/1000::real) \<le> 1 \<and>
   (\<exists>ag' env' vars'.
      train_loop (example_world (1/2) 0 3) (example_agent [1, 3] [1, 3]) 0 2000 1 1 (1/100) (995/1000)
        = Inr (ag', env', vars') \<and>
      length (scores vars') = 2000 \<and>
      eps vars' = eps_after (1/100) (995/1000) 2000 1 \<and>
      eps vars' = max (1/100) ((995/1000) ^ 2000))"
proof -
  let ?W = "example_world (1/2) 0 3" and ?A = "example_agent [1, 3] [1, 3]"
  let ?v0 = "\<lparr> scores = [], moving_avgs = [], scores_window = [], eps = 1 \<rparr>"
  have inv: "example_inv ?A" by (simp add: example_agent_inv)
  have as: "0 < action_size ?A" by (simp add: example_agent_def init_def)
  have k: "(1::nat) = (if 0 < (3::nat) \<and> 3 \<le> (1::nat) then 3 else 1)" "(1::nat) < 13" by simp_all
  have w0: "\<forall>x \<in> set (scores_window ?v0). x = real 1" by simp
  from example_train_episodes_unsolved [OF inv as k w0, of "1/2" 0 2000 1 "1/100" "995/1000" 0]
  obtain ag' env' vars' where
    run: "train_episodes ?W 2000 1 1 (1/100) (995/1000) ?A 0 ?v0 = Inr (ag', env', vars')"
    and len: "length (scores vars') = 2000" by auto
  have r: "env_reset ?W False 0 = (([0], 0, False), 0)" by (simp add: example_world_def)
  have loop: "train_loop ?W ?A 0 2000 1 1 (1/100) (995/1000) = Inr (ag', env', vars')"
    using run r by (simp add: train_loop_def)
  have h: "(0::real) \<le> 1/100" "(1/100::real) \<le> 1" "(0::real) \<le> 995/1000" "(995/1000::real) \<le> 1"
    by simp_all
  note th = train_epsilon_schedule [OF loop h]
  from th len have e1: "eps vars' = eps_after (1/100) (995/1000) 2000 1" by simp
  from th len have e2: "eps vars' = max (1/100) ((995/1000) ^ 2000)" by blast
  from loop len e1 e2 h show ?thesis by blast
qed

theorem train_stops_when_solved_witness:
  "\<exists>ag' env' vars'.
      train_loop (example_world (1/2) 0 13) (example_agent [1, 3] [1, 3]) 0 2000 1000 1 (1/100) (995/1000)
        = Inr (ag', env', vars') \<and>
      scores vars' = [13] \<and> moving_avgs vars' = [13] \<and>
      last (console ag') = Solved (- 99) 13 \<and>
      files ag' ''checkpoint.pth'' = Some (state_dict_of (qnetwork_local ag'))"
proof -
  let ?W = "example_world (1/2) 0 13" and ?A = "example_agent [1, 3] [1, 3]"
  let ?v0 = "\<lparr> scores = [], moving_avgs = [], scores_window = [], eps = 1 \<rparr>"
  have inv: "example_inv ?A" by (simp add: example_agent_inv)
  have as: "0 < action_size ?A" by (simp add: example_agent_def init_def)
  from example_train_steps [OF inv as, of "1/2" 0 13 1000 0 "[0]" 0 1]
  obtain ag1 where t: "train_steps ?W 1000 ?A 0 [0] 0 1 = Inr (ag1, 13, 13)" by auto
  have r: "env_reset ?W False 0 = (([0], 0, False), 0)" "env_reset ?W True 0 = (([0], 0, False), 0)"
    by (simp_all add: example_world_def)
  have n: "nat 2000 = Suc 1999" "nat 1000 = 1000" by simp_all
  have m: "mean (deque_append 100 [] 13) = 13" by (simp add: deque_append_def mean_def)
  have "\<exists>ag'. train_episodes ?W (Suc 1999) 1 1000 (1/100) (995/1000) ?A 0 ?v0
      = Inr (ag', 13, \<lparr> scores = [13], moving_avgs = [13], scores_window = deque_append 100 [] 13,
                        eps = max (1/100) (995/1000 * 1) \<rparr>)"
    by (subst train_episodes.simps(2)) (simp add: r(2) t m Let_def)
  then obtain ag' where
    loop: "train_loop ?W ?A 0 2000 1000 1 (1/100) (995/1000)
      = Inr (ag', 13, \<lparr> scores = [13], moving_avgs = [13], scores_window = deque_append 100 [] 13,
                        eps = max (1/100) (995/1000 * 1) \<rparr>)"
    unfolding train_loop_def r(1) n by auto
  have p: "checkpoint_file ?A = ''checkpoint.pth''" by (simp add: example_agent_def init_def)
  from train_stops_when_solved [OF loop]
  have "last (console ag') = Solved (- 99) 13 \<and>
        files ag' = (files ?A)(checkpoint_file ?A \<mapsto> state_dict_of (qnetwork_local ag'))"
    by simp
  with p have "last (console ag') = Solved (- 99) 13"
    "files ag' ''checkpoint.pth'' = Some (state_dict_of (qnetwork_local ag'))" by simp_all
  with loop show ?thesis by simp
qed

end
